theory Spec2Isabelle
  imports
    Main
    "HOL-Library.Sublist"
    "HOL-Library.Char_ord"
    "HOL-Library.List_Lexorder"
    "HOL-Library.Multiset"
begin

section \<open>The README patcher: \<^verbatim>\<open>update_readme_section\<close>\<close>

text \<open>
  Python strings are modelled as \<^typ>\<open>string\<close>, one \<^typ>\<open>char\<close> per code point
  (code points up to 255). Two characters that cannot be typed inside a string literal
  get a name of their own.
\<close>

definition NL :: char where
  "NL = CHR 0x0A"

definition BSL :: char where
  "BSL = CHR 0x5C"

subsection \<open>Markers\<close>

text \<open>
  \<^verbatim>\<open>start_marker = f"<!-- {section_name}_START -->"\<close> and
  \<^verbatim>\<open>end_marker = f"<!-- {section_name}_END -->"\<close>.
\<close>

definition start_marker :: "string \<Rightarrow> string" where
  "start_marker section_name = ''<!-- '' @ section_name @ ''_START -->''"

definition end_marker :: "string \<Rightarrow> string" where
  "end_marker section_name = ''<!-- '' @ section_name @ ''_END -->''"

subsection \<open>The compiled pattern\<close>

text \<open>
  The pattern is \<^verbatim>\<open>(re.escape(start_marker))(.*?)(re.escape(end_marker))\<close> compiled with
  \<^verbatim>\<open>re.DOTALL\<close>: the two markers are matched literally, and the lazy group between
  them takes any characters, newlines included, stopping at the first place where the end
  marker follows. \<open>lazy_until lit s\<close> is that lazy group followed by the literal: it
  returns the text consumed by the group and the text after the literal.
\<close>

fun lazy_until :: "string \<Rightarrow> string \<Rightarrow> (string \<times> string) option" where
  "lazy_until lit [] = (if lit = [] then Some ([], []) else None)"
| "lazy_until lit (c # cs) =
     (if prefix lit (c # cs) then Some ([], drop (length lit) (c # cs))
      else (case lazy_until lit cs of
              None \<Rightarrow> None
            | Some (m, r) \<Rightarrow> Some (c # m, r)))"

text \<open>
  A match attempt anchored at the head of \<open>s\<close>: the start marker, the lazy group, the
  end marker. The result is the text of group 2 and the text after the match.
\<close>

definition match_here :: "string \<Rightarrow> string \<Rightarrow> string \<Rightarrow> (string \<times> string) option" where
  "match_here S E s = (if prefix S s then lazy_until E (drop (length S) s) else None)"

text \<open>
  \<^verbatim>\<open>pattern.search\<close>: the match attempt is made at each position from the left, and the
  first position where it succeeds wins. The result is the text before the match, group 2
  and the text after the match.
\<close>

fun pattern_search :: "string \<Rightarrow> string \<Rightarrow> string \<Rightarrow> (string \<times> string \<times> string) option" where
  "pattern_search S E [] =
     (case match_here S E [] of
        None \<Rightarrow> None
      | Some (m, r) \<Rightarrow> Some ([], m, r))"
| "pattern_search S E (c # cs) =
     (case match_here S E (c # cs) of
        Some (m, r) \<Rightarrow> Some ([], m, r)
      | None \<Rightarrow>
         (case pattern_search S E cs of
            None \<Rightarrow> None
          | Some (p, m, r) \<Rightarrow> Some (c # p, m, r)))"

subsection \<open>The replacement template\<close>

text \<open>
  \<^verbatim>\<open>pattern.sub(replacement, content)\<close> is given a string, not a function, so the
  \<^verbatim>\<open>re\<close> module reads the replacement as a template (\<^verbatim>\<open>re._parser.parse_template\<close>):
  a backslash starts an escape or a group reference. The model follows the parser of
  Python 3.12 (older versions also take a sign or spaces in the number of \<^verbatim>\<open>\g<...>\<close>).
  The pattern has three groups and no named group. Every exception the template parser
  raises (\<^verbatim>\<open>re.error\<close>, and \<^verbatim>\<open>IndexError\<close> for an unknown group name) is the error
  value \<open>ReplacementError\<close>; \<open>OverflowError\<close> is raised by the date arithmetic of
  \<^verbatim>\<open>get_all_activity\<close> below.
\<close>

datatype error = ReplacementError | OverflowError

datatype titem = TLit string | TGroup nat

text \<open>
  The tokenizer pairs a backslash with the character after it; a backslash at the very
  end is an error (\<^verbatim>\<open>bad escape (end of pattern)\<close>).
\<close>

fun tokenize :: "string \<Rightarrow> error + string list" where
  "tokenize [] = Inr []"
| "tokenize [c] = (if c = BSL then Inl ReplacementError else Inr [[c]])"
| "tokenize (c # d # cs) =
     (if c = BSL
      then (case tokenize cs of Inl e \<Rightarrow> Inl e | Inr ts \<Rightarrow> Inr ([c, d] # ts))
      else (case tokenize (d # cs) of Inl e \<Rightarrow> Inl e | Inr ts \<Rightarrow> Inr ([c] # ts)))"

definition OCTDIGITS :: "char set" where
  "OCTDIGITS = set ''01234567''"

definition DIGITS :: "char set" where
  "DIGITS = set ''0123456789''"

definition ASCIILETTERS :: "char set" where
  "ASCIILETTERS = set ''abcdefghijklmnopqrstuvwxyzABCDEFGHIJKLMNOPQRSTUVWXYZ''"

text \<open>\<^verbatim>\<open>s.next in D\<close>: the next token exists and is a single character of \<open>D\<close>.\<close>

fun next_in :: "char set \<Rightarrow> string list \<Rightarrow> bool" where
  "next_in D [] = False"
| "next_in D (t # ts) = (case t of [c] \<Rightarrow> c \<in> D | _ \<Rightarrow> False)"

definition digit_val :: "char \<Rightarrow> nat" where
  "digit_val c = of_char c - of_char CHR ''0''"

text \<open>\<^verbatim>\<open>int(ds, base)\<close> on a string of digits.\<close>

definition int_base :: "nat \<Rightarrow> string \<Rightarrow> nat" where
  "int_base base ds = foldl (\<lambda>a d. base * a + digit_val d) 0 ds"

text \<open>
  \<^verbatim>\<open>s.getuntil(">", "group name")\<close>: collects tokens up to the terminator; a missing
  terminator and an empty name are errors. The result is the name and the number of
  tokens consumed, the terminator included.
\<close>

fun getuntil :: "string list \<Rightarrow> string \<Rightarrow> nat \<Rightarrow> (string \<times> nat) option" where
  "getuntil [] result k = None"
| "getuntil (c # cs) result k =
     (if c = ''>'' then (if result = [] then None else Some (result, Suc k))
      else getuntil cs (result @ c) (Suc k))"

text \<open>
  The table \<^verbatim>\<open>ESCAPES\<close> of the parser: \<^verbatim>\<open>\a \b \f \n \r \t \v \\\<close>.
\<close>

definition ESCAPES :: "char \<Rightarrow> char option" where
  "ESCAPES c =
     (if c = CHR ''a'' then Some (CHR 0x07)
      else if c = CHR ''b'' then Some (CHR 0x08)
      else if c = CHR ''f'' then Some (CHR 0x0C)
      else if c = CHR ''n'' then Some (CHR 0x0A)
      else if c = CHR ''r'' then Some (CHR 0x0D)
      else if c = CHR ''t'' then Some (CHR 0x09)
      else if c = CHR ''v'' then Some (CHR 0x0B)
      else if c = BSL then Some BSL
      else None)"

text \<open>
  One round of the parser's loop on the token \<open>this\<close>, with the tokens after it in
  \<open>rest\<close>: the item produced and how many tokens of \<open>rest\<close> were consumed with it.
  \<open>groups\<close> is \<^verbatim>\<open>pattern.groups\<close>.
\<close>

definition parse_step :: "nat \<Rightarrow> string \<Rightarrow> string list \<Rightarrow> error + (titem \<times> nat)" where
  "parse_step groups this rest =
     (if hd this = BSL then
        (let c = this ! 1 in
         if c = CHR ''g'' then
           (case rest of
              [] \<Rightarrow> Inl ReplacementError
            | t # rest1 \<Rightarrow>
                if t \<noteq> ''<'' then Inl ReplacementError
                else (case getuntil rest1 [] 0 of
                        None \<Rightarrow> Inl ReplacementError
                      | Some (name, k) \<Rightarrow>
                          if \<not> (\<forall>d \<in> set name. d \<in> DIGITS) then Inl ReplacementError
                          else if int_base 10 name > groups then Inl ReplacementError
                          else Inr (TGroup (int_base 10 name), Suc k)))
         else if c = CHR ''0'' then
           (if next_in OCTDIGITS rest then
              (if next_in OCTDIGITS (tl rest)
               then Inr (TLit [char_of (int_base 8 (c # hd rest @ hd (tl rest)) mod 256)], 2)
               else Inr (TLit [char_of (int_base 8 (c # hd rest) mod 256)], 1))
            else Inr (TLit [char_of (int_base 8 [c] mod 256)], 0))
         else if c \<in> DIGITS then
           (if next_in DIGITS rest then
              (if c \<in> OCTDIGITS \<and> hd (hd rest) \<in> OCTDIGITS \<and> next_in OCTDIGITS (tl rest)
               then (let v = int_base 8 (c # hd rest @ hd (tl rest)) in
                     if v > 255 then Inl ReplacementError
                     else Inr (TLit [char_of v], 2))
               else (if int_base 10 (c # hd rest) > groups then Inl ReplacementError
                     else Inr (TGroup (int_base 10 (c # hd rest)), 1)))
            else (if int_base 10 [c] > groups then Inl ReplacementError
                  else Inr (TGroup (int_base 10 [c]), 0)))
         else
           (case ESCAPES c of
              Some e \<Rightarrow> Inr (TLit [e], 0)
            | None \<Rightarrow>
                if c \<in> ASCIILETTERS then Inl ReplacementError
                else Inr (TLit this, 0)))
      else Inr (TLit this, 0))"

fun parse_tokens :: "nat \<Rightarrow> string list \<Rightarrow> error + titem list" where
  "parse_tokens groups [] = Inr []"
| "parse_tokens groups (this # rest) =
     (case parse_step groups this rest of
        Inl e \<Rightarrow> Inl e
      | Inr (item, k) \<Rightarrow>
          (case parse_tokens groups (drop k rest) of
             Inl e \<Rightarrow> Inl e
           | Inr items \<Rightarrow> Inr (item # items)))"

definition parse_template :: "nat \<Rightarrow> string \<Rightarrow> error + titem list" where
  "parse_template groups source =
     (case tokenize source of
        Inl e \<Rightarrow> Inl e
      | Inr ts \<Rightarrow> parse_tokens groups ts)"

text \<open>
  Expanding the template for one match: literals are copied, a group reference is
  replaced by the text of that group (\<open>gs ! 0\<close> is the whole match).
\<close>

fun expand_item :: "string list \<Rightarrow> titem \<Rightarrow> string" where
  "expand_item gs (TLit s) = s"
| "expand_item gs (TGroup i) = gs ! i"

definition expand_template :: "titem list \<Rightarrow> string list \<Rightarrow> string" where
  "expand_template items gs = concat (map (expand_item gs) items)"


subsection \<open>Substitution\<close>

lemma lazy_until_Some:
  "lazy_until lit s = Some (m, r) \<Longrightarrow> s = m @ lit @ r"
proof (induction s arbitrary: m r)
  case Nil
  then show ?case by (simp split: if_splits)
next
  case (Cons c cs)
  show ?case
  proof (cases "prefix lit (c # cs)")
    case True
    with Cons.prems have "m = []" and "r = drop (length lit) (c # cs)" by simp_all
    moreover from True have "c # cs = lit @ drop (length lit) (c # cs)"
      by (metis append_eq_conv_conj prefixE)
    ultimately show ?thesis by simp
  next
    case False
    with Cons.prems obtain m' where "lazy_until lit cs = Some (m', r)" and "m = c # m'"
      by (auto split: option.splits)
    with Cons.IH show ?thesis by simp
  qed
qed

lemma match_here_Some:
  "match_here S E s = Some (m, r) \<Longrightarrow> s = S @ m @ E @ r"
proof -
  assume a: "match_here S E s = Some (m, r)"
  then have p: "prefix S s" and l: "lazy_until E (drop (length S) s) = Some (m, r)"
    by (simp_all add: match_here_def split: if_splits)
  from p have "s = S @ drop (length S) s"
    by (metis append_eq_conv_conj prefixE)
  with lazy_until_Some [OF l] show ?thesis by simp
qed

lemma pattern_search_Some:
  "pattern_search S E s = Some (p, m, r) \<Longrightarrow> s = p @ S @ m @ E @ r"
proof (induction s arbitrary: p)
  case Nil
  then show ?case by (auto split: option.splits dest: match_here_Some)
next
  case (Cons c cs)
  show ?case
  proof (cases "match_here S E (c # cs)")
    case None
    with Cons.prems obtain p' where "pattern_search S E cs = Some (p', m, r)" and "p = c # p'"
      by (auto split: option.splits)
    with Cons.IH show ?thesis by simp
  next
    case (Some mr)
    with Cons.prems have "p = []" and "mr = (m, r)" by (auto split: prod.splits)
    with Some match_here_Some show ?thesis by fastforce
  qed
qed

lemma pattern_search_shorter:
  "pattern_search (start_marker n) E s = Some (p, m, r) \<Longrightarrow> length r < length s"
  by (drule pattern_search_Some) (simp add: start_marker_def)

text \<open>
  \<^verbatim>\<open>pattern.sub(replacement, content)\<close> with the template already parsed: every
  non-overlapping match, found from the left, is replaced by the expanded template, and
  the search goes on behind the match (the count argument is left at its default, 0,
  which means all matches). A match is never empty, since the start marker is not. The
  pattern is given by the section name it was compiled from.
\<close>

function pattern_sub :: "string \<Rightarrow> titem list \<Rightarrow> string \<Rightarrow> string" where
  "pattern_sub section_name items s =
     (case pattern_search (start_marker section_name) (end_marker section_name) s of
        None \<Rightarrow> s
      | Some (p, m, r) \<Rightarrow>
          p @ expand_template items
                [start_marker section_name @ m @ end_marker section_name,
                 start_marker section_name, m, end_marker section_name]
            @ pattern_sub section_name items r)"
  by pat_completeness auto
termination
  by (relation "measure (\<lambda>(n, items, s). length s)") (auto dest: pattern_search_shorter)

declare pattern_sub.simps [simp del]

subsection \<open>\<^verbatim>\<open>update_readme_section\<close>\<close>

text \<open>
  The function returns the new document, or raises from inside \<^verbatim>\<open>pattern.sub\<close>; the
  lines it prints are returned with the document.
\<close>

definition update_readme_section :: "string \<Rightarrow> string \<Rightarrow> string \<Rightarrow> error + (string \<times> string list)" where
  "update_readme_section content section_name new_content =
     (let replacement = start_marker section_name @ [NL] @ new_content @ [NL] @ end_marker section_name
      in if pattern_search (start_marker section_name) (end_marker section_name) content \<noteq> None
         then (case parse_template 3 replacement of
                 Inl e \<Rightarrow> Inl e
               | Inr items \<Rightarrow> Inr (pattern_sub section_name items content, []))
         else Inr (content,
                [''Warning: Section markers for '' @ [CHR 0x27] @ section_name @ [CHR 0x27]
                   @ '' not found in README'']))"


section \<open>Activity records\<close>

text \<open>
  The two kinds of dictionary the collectors build, told apart by their key
  \<^verbatim>\<open>type\<close> (\<^verbatim>\<open>"repo"\<close> or \<^verbatim>\<open>"contribution"\<close>). The fields are, in this order:
  \<^verbatim>\<open>name\<close>, \<^verbatim>\<open>url\<close>, \<^verbatim>\<open>commit_count\<close>, \<^verbatim>\<open>has_release\<close>, \<^verbatim>\<open>latest_tag\<close>,
  \<^verbatim>\<open>latest_tag_url\<close>, \<^verbatim>\<open>latest_activity\<close> for a repository, and \<^verbatim>\<open>name\<close>,
  \<^verbatim>\<open>url\<close>, \<^verbatim>\<open>pr_count\<close>, \<^verbatim>\<open>latest_activity\<close> for a contribution.
\<close>

datatype activity =
    RepoActivity string string int bool "string option" "string option" string
  | ContributionActivity string string int string

fun latest_activity :: "activity \<Rightarrow> string" where
  "latest_activity (RepoActivity name url commit_count has_release latest_tag latest_tag_url t) = t"
| "latest_activity (ContributionActivity name url pr_count t) = t"

section \<open>Collecting activity\<close>

subsection \<open>Strings and lists of Python\<close>

text \<open>
  \<^verbatim>\<open>str.lower\<close> on code points up to 255: the ASCII capitals and the capitals of
  Latin-1 (\<open>0xC0\<close> to \<open>0xDE\<close> without the multiplication sign \<open>0xD7\<close>) move up
  by 32.
\<close>

definition lower_char :: "char \<Rightarrow> char" where
  "lower_char c =
     (let n = (of_char c :: nat)
      in if (65 \<le> n \<and> n \<le> 90) \<or> (192 \<le> n \<and> n \<le> 222 \<and> n \<noteq> 215)
         then char_of (n + 32) else c)"

definition lower :: "string \<Rightarrow> string" where
  "lower s = map lower_char s"

text \<open>\<^verbatim>\<open>str(n)\<close> for an integer, as an f-string prints it.\<close>

fun str_nat :: "nat \<Rightarrow> string" where
  "str_nat n =
     (if n < 10 then [char_of (48 + n)]
      else str_nat (n div 10) @ [char_of (48 + n mod 10)])"

declare str_nat.simps [simp del]

definition str_int :: "int \<Rightarrow> string" where
  "str_int i = (if i < 0 then CHR ''-'' # str_nat (nat (- i)) else str_nat (nat i))"

text \<open>\<^verbatim>\<open>sep.join(xs)\<close>.\<close>

fun join :: "string \<Rightarrow> string list \<Rightarrow> string" where
  "join sep [] = []"
| "join sep [x] = x"
| "join sep (x # y # ys) = x @ sep @ join sep (y # ys)"

text \<open>
  \<^verbatim>\<open>xs.sort(key=key, reverse=True)\<close>. CPython reverses the list, sorts it with its
  stable ascending sort, and reverses the result, which keeps elements with equal keys in
  their original order. \<^const>\<open>sort_key\<close> is a stable ascending sort. Strings compare
  as in Python: code point by code point, a proper prefix first.
\<close>

definition sort_reverse :: "('a \<Rightarrow> 'k::linorder) \<Rightarrow> 'a list \<Rightarrow> 'a list" where
  "sort_reverse key xs = rev (sort_key key (rev xs))"

text \<open>The slice \<^verbatim>\<open>xs[:limit]\<close>: a negative \<open>limit\<close> counts from the end.\<close>

definition slice_to :: "int \<Rightarrow> 'a list \<Rightarrow> 'a list" where
  "slice_to limit xs =
     (if limit < 0 then take (nat (int (length xs) + limit)) xs else take (nat limit) xs)"

subsection \<open>The GitHub API\<close>

text \<open>
  The JSON objects the API returns are records with the fields the script reads. A field
  read with \<^verbatim>\<open>.get\<close>, or compared with \<^verbatim>\<open>None\<close>, is optional; a field read with
  \<^verbatim>\<open>[...]\<close> is there and is a string (a truth value for \<^verbatim>\<open>isPrivate\<close>), as the
  API's schema says. A response of another shape, on which the script would raise
  \<^verbatim>\<open>KeyError\<close> or \<^verbatim>\<open>TypeError\<close>, is outside the model. Of a commit only its presence
  in the list is used.
\<close>

record repo =
  repo_name :: string
  repo_full_name :: string
  repo_html_url :: string
  repo_fork :: "bool option"
  repo_pushed_at :: "string option"

datatype commit = Commit string

record release =
  release_published_at :: "string option"
  release_tag_name :: string
  release_html_url :: string

record tag =
  tag_name :: string

record pull_request =
  pr_merged_at :: "string option"

record gql_repository =
  gql_name_with_owner :: string
  gql_url :: string
  gql_is_private :: bool
  gql_owner_login :: string

record repo_contribution =
  rc_repository :: gql_repository
  rc_nodes :: "pull_request list"

text \<open>
  The decoded body of the GraphQL response: a dictionary without the key \<^verbatim>\<open>data\<close>, or
  one whose \<^verbatim>\<open>data\<close> holds the list \<^verbatim>\<open>pullRequestContributionsByRepository\<close>.
\<close>

datatype gql_response = GqlNoData | GqlData "repo_contribution list"

text \<open>
  What lies outside the script is a parameter: for each endpoint, the decoded response to
  a URL (\<open>None\<close> when \<^verbatim>\<open>github_api_request\<close> catches an HTTP or URL error and
  returns \<^verbatim>\<open>None\<close>; an exception it does not catch is outside the model); the
  response to a GraphQL query; and the clock, which gives the
  time \<open>days\<close> days before now in the format \<^verbatim>\<open>%Y-%m-%dT%H:%M:%SZ\<close>, or \<open>None\<close> when
  \<^verbatim>\<open>timedelta\<close> or the subtraction raises \<^verbatim>\<open>OverflowError\<close>.
\<close>

record api =
  rest_repos :: "string \<Rightarrow> repo list option"
  rest_commits :: "string \<Rightarrow> commit list option"
  rest_releases :: "string \<Rightarrow> release list option"
  rest_tags :: "string \<Rightarrow> tag list option"
  graphql :: "string \<Rightarrow> gql_response option"
  days_ago :: "int \<Rightarrow> string option"

definition GITHUB_USERNAME :: string where
  "GITHUB_USERNAME = ''jimyag''"

text \<open>
  The requests made are the state: every call appends its URL to the log. The messages
  \<^verbatim>\<open>github_api_request\<close> prints on a failure are not modelled.
\<close>

definition github_api_request ::
  "(string \<Rightarrow> 'a option) \<Rightarrow> string \<Rightarrow> string list \<Rightarrow> 'a option \<times> string list" where
  "github_api_request endpoint url log = (endpoint url, log @ [url])"

definition github_graphql_request ::
  "api \<Rightarrow> string \<Rightarrow> string list \<Rightarrow> gql_response option \<times> string list" where
  "github_graphql_request env query log = (graphql env query, log @ [''https://api.github.com/graphql''])"

subsection \<open>\<^verbatim>\<open>get_open_source_contributions\<close>\<close>

definition contributions_query :: string where
  "contributions_query =
     concat (map (\<lambda>l. l @ [NL])
       ['''',
        ''    {'',
        ''      user(login: '' @ [CHR 0x22] @ GITHUB_USERNAME @ [CHR 0x22] @ '') {'',
        ''        contributionsCollection {'',
        ''          pullRequestContributionsByRepository(maxRepositories: 50) {'',
        ''            repository {'',
        ''              nameWithOwner'',
        ''              url'',
        ''              isPrivate'',
        ''              owner {'',
        ''                login'',
        ''              }'',
        ''            }'',
        ''            contributions(first: 10) {'',
        ''              nodes {'',
        ''                pullRequest {'',
        ''                  title'',
        ''                  url'',
        ''                  mergedAt'',
        ''                  state'',
        ''                }'',
        ''              }'',
        ''            }'',
        ''          }'',
        ''        }'',
        ''      }'',
        ''    }'']) @ ''    ''"

text \<open>
  \<^verbatim>\<open>len(owner_name) > 30 and all(c in "0123456789abcdef" for c in owner_name.lower())\<close>
\<close>

definition hash_like :: "string \<Rightarrow> bool" where
  "hash_like owner_name \<longleftrightarrow>
     length owner_name > 30 \<and> (\<forall>c \<in> set (lower owner_name). c \<in> set ''0123456789abcdef'')"

text \<open>
  The list comprehension \<^verbatim>\<open>merged_prs\<close>: the pull requests with a merge time that is
  not \<^verbatim>\<open>None\<close> and not before the cutoff.
\<close>

definition merged_prs_of :: "string \<Rightarrow> repo_contribution \<Rightarrow> pull_request list" where
  "merged_prs_of cutoff_iso repo_contribution =
     filter (\<lambda>pr. case pr_merged_at pr of None \<Rightarrow> False | Some t \<Rightarrow> t \<ge> cutoff_iso)
       (rc_nodes repo_contribution)"

text \<open>
  The loop over \<^verbatim>\<open>pr_repos\<close>, with the list \<^verbatim>\<open>contributions\<close> as accumulator. The key
  \<^verbatim>\<open>x["mergedAt"]\<close> is read from pull requests that passed the filter only, where it is
  a string.
\<close>

fun contributions_loop :: "string \<Rightarrow> repo_contribution list \<Rightarrow> activity list \<Rightarrow> activity list" where
  "contributions_loop cutoff_iso [] contributions = contributions"
| "contributions_loop cutoff_iso (repo_contribution # rest) contributions =
     (let repo = rc_repository repo_contribution in
      if gql_is_private repo then contributions_loop cutoff_iso rest contributions
      else if lower (gql_owner_login repo) = lower GITHUB_USERNAME
      then contributions_loop cutoff_iso rest contributions
      else if hash_like (gql_owner_login repo)
      then contributions_loop cutoff_iso rest contributions
      else
        (let merged_prs = merged_prs_of cutoff_iso repo_contribution in
         if merged_prs \<noteq> [] then
           (let latest_pr = hd (sort_reverse (\<lambda>x. the (pr_merged_at x)) merged_prs)
            in contributions_loop cutoff_iso rest
                 (contributions @
                    [ContributionActivity (gql_name_with_owner repo) (gql_url repo)
                       (int (length merged_prs)) (the (pr_merged_at latest_pr))]))
         else contributions_loop cutoff_iso rest contributions))"

definition get_open_source_contributions ::
  "api \<Rightarrow> string \<Rightarrow> string list \<Rightarrow> activity list \<times> string list" where
  "get_open_source_contributions env cutoff_iso log =
     (case github_graphql_request env contributions_query log of
        (result, log1) \<Rightarrow>
          (case result of
             None \<Rightarrow> ([], log1)
           | Some GqlNoData \<Rightarrow> ([], log1)
           | Some (GqlData pr_repos) \<Rightarrow> (contributions_loop cutoff_iso pr_repos [], log1)))"

subsection \<open>\<^verbatim>\<open>get_own_repos_activity\<close>\<close>

definition repos_url :: string where
  "repos_url = ''https://api.github.com/users/'' @ GITHUB_USERNAME
     @ ''/repos?per_page=100&type=owner&sort=pushed&direction=desc''"

definition commits_url :: "repo \<Rightarrow> string \<Rightarrow> string" where
  "commits_url repo cutoff_iso = ''https://api.github.com/repos/'' @ repo_full_name repo
     @ ''/commits?since='' @ cutoff_iso @ ''&per_page=100''"

definition releases_url :: "repo \<Rightarrow> string" where
  "releases_url repo = ''https://api.github.com/repos/'' @ repo_full_name repo
     @ ''/releases?per_page=10''"

definition tags_url :: "repo \<Rightarrow> string" where
  "tags_url repo = ''https://api.github.com/repos/'' @ repo_full_name repo
     @ ''/tags?per_page=5''"

text \<open>
  The inner loop that fills \<^verbatim>\<open>recent_releases\<close>: a release is kept when
  \<^verbatim>\<open>release.get("published_at") and release["published_at"] >= cutoff_iso\<close>.
\<close>

definition recent_releases_of :: "string \<Rightarrow> release list \<Rightarrow> release list" where
  "recent_releases_of cutoff_iso releases =
     filter (\<lambda>release. case release_published_at release of
                          None \<Rightarrow> False
                        | Some t \<Rightarrow> t \<noteq> [] \<and> t \<ge> cutoff_iso) releases"

text \<open>
  The body of the loop over \<^verbatim>\<open>repos\<close> for one repository: the record it appends to
  \<^verbatim>\<open>recent_repos\<close>, or \<open>None\<close> where it leaves the round with \<^verbatim>\<open>continue\<close>, and
  the log of requests. \<^verbatim>\<open>not pushed_at\<close> holds for \<^verbatim>\<open>None\<close> and for the empty
  string, \<^verbatim>\<open>not latest_tag\<close> likewise; \<^verbatim>\<open>len(commits) if commits else 0\<close> is 0 for
  \<^verbatim>\<open>None\<close> and for the empty list; \<^verbatim>\<open>if releases:\<close> fails for both.
\<close>

definition own_repo_step ::
  "api \<Rightarrow> string \<Rightarrow> repo \<Rightarrow> string list \<Rightarrow> activity option \<times> string list" where
  "own_repo_step env cutoff_iso repo log =
     (if repo_fork repo = Some True then (None, log)
      else if lower (repo_name repo) = lower GITHUB_USERNAME then (None, log)
      else
        (case repo_pushed_at repo of
           None \<Rightarrow> (None, log)
         | Some pushed_at \<Rightarrow>
             if pushed_at = [] \<or> pushed_at < cutoff_iso then (None, log)
             else
               (case github_api_request (rest_commits env) (commits_url repo cutoff_iso) log of
                  (commits, log1) \<Rightarrow>
                    (let commit_count = (case commits of None \<Rightarrow> 0 | Some cs \<Rightarrow> int (length cs)) in
                     if commit_count = 0 then (None, log1)
                     else
                       (case github_api_request (rest_releases env) (releases_url repo) log1 of
                          (releases, log2) \<Rightarrow>
                            (let recent_releases =
                                   (case releases of
                                      None \<Rightarrow> []
                                    | Some rs \<Rightarrow> recent_releases_of cutoff_iso rs);
                                 latest_tag =
                                   (if recent_releases \<noteq> []
                                    then Some (release_tag_name (hd recent_releases)) else None);
                                 latest_tag_url =
                                   (if recent_releases \<noteq> []
                                    then Some (release_html_url (hd recent_releases)) else None)
                             in
                               if latest_tag = None \<or> latest_tag = Some [] then
                                 (case github_api_request (rest_tags env) (tags_url repo) log2 of
                                    (tags, log3) \<Rightarrow>
                                      (case tags of
                                         Some (t # ts) \<Rightarrow>
                                           (Some (RepoActivity (repo_name repo) (repo_html_url repo)
                                                    commit_count (recent_releases \<noteq> [])
                                                    (Some (tag_name t))
                                                    (Some (repo_html_url repo @ ''/releases/tag/'' @ tag_name t))
                                                    pushed_at),
                                            log3)
                                       | _ \<Rightarrow>
                                           (Some (RepoActivity (repo_name repo) (repo_html_url repo)
                                                    commit_count (recent_releases \<noteq> [])
                                                    latest_tag latest_tag_url pushed_at),
                                            log3)))
                               else
                                 (Some (RepoActivity (repo_name repo) (repo_html_url repo)
                                          commit_count (recent_releases \<noteq> [])
                                          latest_tag latest_tag_url pushed_at),
                                  log2)))))))"

text \<open>The loop itself, with \<^verbatim>\<open>recent_repos\<close> as accumulator.\<close>

fun own_repos_loop ::
  "api \<Rightarrow> string \<Rightarrow> repo list \<Rightarrow> activity list \<Rightarrow> string list \<Rightarrow> activity list \<times> string list" where
  "own_repos_loop env cutoff_iso [] recent_repos log = (recent_repos, log)"
| "own_repos_loop env cutoff_iso (repo # rest) recent_repos log =
     (case own_repo_step env cutoff_iso repo log of
        (None, log') \<Rightarrow> own_repos_loop env cutoff_iso rest recent_repos log'
      | (Some a, log') \<Rightarrow> own_repos_loop env cutoff_iso rest (recent_repos @ [a]) log')"

definition get_own_repos_activity ::
  "api \<Rightarrow> string \<Rightarrow> string list \<Rightarrow> activity list \<times> string list" where
  "get_own_repos_activity env cutoff_iso log =
     (case github_api_request (rest_repos env) repos_url log of
        (repos, log1) \<Rightarrow>
          (case repos of
             None \<Rightarrow> ([], log1)
           | Some [] \<Rightarrow> ([], log1)
           | Some (r # rs) \<Rightarrow> own_repos_loop env cutoff_iso (r # rs) [] log1))"

subsection \<open>\<^verbatim>\<open>get_all_activity\<close>\<close>

text \<open>
  The cutoff is the time \<open>months * 30\<close> days before now. The owned repositories are
  fetched first, the contributions second.
\<close>

definition get_all_activity ::
  "api \<Rightarrow> int \<Rightarrow> int \<Rightarrow> string list \<Rightarrow> error + (activity list \<times> string list)" where
  "get_all_activity env months limit log =
     (case days_ago env (months * 30) of
        None \<Rightarrow> Inl OverflowError
      | Some cutoff_iso \<Rightarrow>
          (case get_own_repos_activity env cutoff_iso log of
             (own_repos, log1) \<Rightarrow>
               (case get_open_source_contributions env cutoff_iso log1 of
                  (contributions, log2) \<Rightarrow>
                    (let all_activity = sort_reverse latest_activity (own_repos @ contributions)
                     in Inr (slice_to limit all_activity, log2)))))"

section \<open>Rendering: \<^verbatim>\<open>generate_activity_markdown\<close>\<close>

text \<open>
  An f-string prints \<^verbatim>\<open>None\<close> as the text \<^verbatim>\<open>None\<close>; this is what interpolating a
  missing tag URL would give.
\<close>

fun fmt_optional :: "string option \<Rightarrow> string" where
  "fmt_optional None = ''None''"
| "fmt_optional (Some s) = s"

text \<open>
  One round of the loop over the activities: the line for one item.
  \<^verbatim>\<open>if item["latest_tag"]\<close> holds for a tag that is neither \<^verbatim>\<open>None\<close> nor empty.
\<close>

fun activity_line :: "activity \<Rightarrow> string" where
  "activity_line (RepoActivity name url commit_count has_release latest_tag latest_tag_url t) =
     (let stats =
            (if commit_count > 0 then [str_int commit_count @ '' commits''] else []) @
            (case latest_tag of
               None \<Rightarrow> []
             | Some tg \<Rightarrow>
                 if tg = [] then []
                 else [''['' @ tg @ '']('' @ fmt_optional latest_tag_url @ '')'']);
          line = ''- ['' @ name @ '']('' @ url @ '')''
      in if stats \<noteq> [] then line @ '' ('' @ join '', '' stats @ '')'' else line)"
| "activity_line (ContributionActivity name url pr_count t) =
     (let pr_text = (if pr_count = 1 then ''PR'' else ''PRs'')
      in ''- ['' @ name @ '']('' @ url @ '') ('' @ str_int pr_count @ '' merged '' @ pr_text @ '')'')"

definition generate_activity_markdown :: "activity list \<Rightarrow> string" where
  "generate_activity_markdown activities =
     (if activities = [] then ''_No recent activity_''
      else join [NL] (map activity_line activities))"

section \<open>Example data\<close>

text \<open>
  A small GitHub, used for the instances below: repositories of the user, releases of the
  repository \<^verbatim>\<open>blog\<close>, repositories the user contributed to, and an API that answers
  every URL of an endpoint with the same list. The clock puts the cutoff at the first of
  April 2024.
\<close>

definition example_repo :: "string \<Rightarrow> string \<Rightarrow> repo" where
  "example_repo nm pushed =
     \<lparr>repo_name = nm, repo_full_name = ''jimyag/'' @ nm,
      repo_html_url = ''https://github.com/jimyag/'' @ nm,
      repo_fork = Some False, repo_pushed_at = Some pushed\<rparr>"


definition example_contribution :: "string \<Rightarrow> string \<Rightarrow> repo_contribution" where
  "example_contribution owner merged =
     \<lparr>rc_repository =
        \<lparr>gql_name_with_owner = owner @ ''/lib'', gql_url = ''https://github.com/'' @ owner @ ''/lib'',
         gql_is_private = False, gql_owner_login = owner\<rparr>,
      rc_nodes = [\<lparr>pr_merged_at = Some merged\<rparr>]\<rparr>"

definition example_api ::
  "repo list \<Rightarrow> commit list \<Rightarrow> release list \<Rightarrow> tag list \<Rightarrow> repo_contribution list \<Rightarrow> api" where
  "example_api repos commits releases tags pr_repos =
     \<lparr>rest_repos = (\<lambda>url. Some repos), rest_commits = (\<lambda>url. Some commits),
      rest_releases = (\<lambda>url. Some releases), rest_tags = (\<lambda>url. Some tags),
      graphql = (\<lambda>query. Some (GqlData pr_repos)),
      days_ago = (\<lambda>days. Some ''2024-04-01T00:00:00Z'')\<rparr>"

section \<open>Properties of the patcher\<close>

subsection \<open>What the search finds\<close>

lemma prefix_length_append:
  "length xs \<le> length ys \<Longrightarrow> prefix xs (ys @ zs) = prefix xs ys"
  by (metis prefix_length_prefix prefix_prefix prefixI)

lemma early_free_Nil:
  "lit \<noteq> [] \<Longrightarrow> \<not> sublist lit (butlast ([] @ lit))"
proof
  assume n: "lit \<noteq> []" and s: "sublist lit (butlast ([] @ lit))"
  from s have "sublist lit (butlast lit)" by simp
  then have "length lit \<le> length (butlast lit)" by (rule sublist_length_le)
  also have "\<dots> = length lit - 1" by simp
  finally have "length lit = 0" by arith
  with n show False by simp
qed

lemma early_free_Cons:
  assumes "lit \<noteq> []"
  shows "\<not> sublist lit (butlast ((c # p) @ lit)) \<longleftrightarrow>
         \<not> prefix lit (c # p @ lit) \<and> \<not> sublist lit (butlast (p @ lit))"
proof -
  from assms have b: "butlast ((c # p) @ lit) = c # butlast (p @ lit)" by simp
  from assms have "length lit \<le> length (c # butlast (p @ lit))" by simp
  moreover from assms have "c # p @ lit = (c # butlast (p @ lit)) @ [last lit]"
    by (simp add: butlast_append)
  ultimately have "prefix lit (c # p @ lit) = prefix lit (c # butlast (p @ lit))"
    using prefix_length_append by metis
  then show ?thesis by (simp only: b sublist_Cons_right) blast
qed


lemma lazy_until_found:
  "lazy_until lit (a @ lit @ b) \<noteq> None"
proof (induction a)
  case Nil
  show ?case
  proof (cases "lit @ b")
    case Nil
    then show ?thesis by simp
  next
    case (Cons c cs)
    have "prefix lit (lit @ b)" by simp
    with Cons show ?thesis by simp
  qed
next
  case (Cons c a)
  then show ?case by (auto split: option.splits)
qed

lemma lazy_until_iff:
  assumes "lit \<noteq> []"
  shows "lazy_until lit s = Some (m, r) \<longleftrightarrow>
         s = m @ lit @ r \<and> \<not> sublist lit (butlast (m @ lit))"
proof (induction s arbitrary: m)
  case Nil
  with assms show ?case by simp
next
  case (Cons c cs)
  show ?case
  proof (cases "prefix lit (c # cs)")
    case True
    then have d: "c # cs = lit @ drop (length lit) (c # cs)"
      by (metis append_eq_conv_conj prefixE)
    show ?thesis
    proof
      assume "lazy_until lit (c # cs) = Some (m, r)"
      with True have "m = []" and "r = drop (length lit) (c # cs)" by simp_all
      with d early_free_Nil [OF assms] show "c # cs = m @ lit @ r \<and> \<not> sublist lit (butlast (m @ lit))"
        by simp
    next
      assume a: "c # cs = m @ lit @ r \<and> \<not> sublist lit (butlast (m @ lit))"
      have "m = []"
      proof (cases m)
        case Nil
        then show ?thesis .
      next
        case (Cons c' m')
        with a have "\<not> prefix lit (c' # m' @ lit)"
          using early_free_Cons [OF assms, of c' m'] by simp
        moreover from a Cons True have "prefix lit ((c' # m' @ lit) @ r)" by simp
        then have "prefix lit (c' # m' @ lit)"
          by (subst (asm) prefix_length_append) simp_all
        ultimately show ?thesis by simp
      qed
      with a have "r = drop (length lit) (c # cs)" by simp
      with True \<open>m = []\<close> show "lazy_until lit (c # cs) = Some (m, r)" by simp
    qed
  next
    case False
    show ?thesis
    proof
      assume "lazy_until lit (c # cs) = Some (m, r)"
      with False obtain m' where l: "lazy_until lit cs = Some (m', r)" and m: "m = c # m'"
        by (auto split: option.splits)
      from l Cons.IH have cs: "cs = m' @ lit @ r" and e: "\<not> sublist lit (butlast (m' @ lit))"
        by simp_all
      from False cs have "\<not> prefix lit ((c # m' @ lit) @ r)" by simp
      then have "\<not> prefix lit (c # m' @ lit)"
        by (subst (asm) prefix_length_append) simp_all
      with e have "\<not> sublist lit (butlast ((c # m') @ lit))"
        using early_free_Cons [OF assms, of c m'] by simp
      with cs m show "c # cs = m @ lit @ r \<and> \<not> sublist lit (butlast (m @ lit))" by simp
    next
      assume a: "c # cs = m @ lit @ r \<and> \<not> sublist lit (butlast (m @ lit))"
      with False obtain m' where m: "m = c # m'"
        by (cases m) auto
      with a have cs: "cs = m' @ lit @ r" by simp
      from a m have "\<not> sublist lit (butlast (m' @ lit))"
        using early_free_Cons [OF assms, of c m'] by simp
      with cs Cons.IH have "lazy_until lit cs = Some (m', r)" by simp
      with False m show "lazy_until lit (c # cs) = Some (m, r)" by simp
    qed
  qed
qed

lemma match_here_iff:
  assumes "E \<noteq> []"
  shows "match_here S E s = Some (m, r) \<longleftrightarrow>
         s = S @ m @ E @ r \<and> \<not> sublist E (butlast (m @ E))"
proof
  assume a: "match_here S E s = Some (m, r)"
  then have p: "prefix S s" and l: "lazy_until E (drop (length S) s) = Some (m, r)"
    by (simp_all add: match_here_def split: if_splits)
  from p have "s = S @ drop (length S) s"
    by (metis append_eq_conv_conj prefixE)
  with l lazy_until_iff [OF assms, of "drop (length S) s" m r]
  show "s = S @ m @ E @ r \<and> \<not> sublist E (butlast (m @ E))" by simp
next
  assume a: "s = S @ m @ E @ r \<and> \<not> sublist E (butlast (m @ E))"
  then have "lazy_until E (m @ E @ r) = Some (m, r)"
    using lazy_until_iff [OF assms, of "m @ E @ r" m r] by simp
  with a show "match_here S E s = Some (m, r)" by (simp add: match_here_def)
qed

lemma match_here_None_prefix:
  assumes "match_here S E (c # p @ S @ m @ E @ r) = None"
  shows "\<not> prefix S (c # p @ S)"
proof
  assume "prefix S (c # p @ S)"
  then have pre: "prefix S (c # p @ S @ m @ E @ r)"
    using prefix_length_append [of S "c # p @ S" "m @ E @ r"] by simp
  have "length S \<le> length (c # p @ S @ m)" by simp
  then have "drop (length S) (c # p @ S @ m @ E @ r) = drop (length S) (c # p @ S @ m) @ E @ r"
    using drop_append [of "length S" "c # p @ S @ m" "E @ r"] by simp
  then have "lazy_until E (drop (length S) (c # p @ S @ m @ E @ r)) \<noteq> None"
    using lazy_until_found [of E "drop (length S) (c # p @ S @ m)" r] by simp
  with pre assms show False by (simp add: match_here_def)
qed

lemma pattern_search_iff:
  assumes "S \<noteq> []" and "E \<noteq> []"
  shows "pattern_search S E s = Some (p, m, r) \<longleftrightarrow>
         s = p @ S @ m @ E @ r \<and> \<not> sublist S (butlast (p @ S)) \<and> \<not> sublist E (butlast (m @ E))"
proof (induction s arbitrary: p)
  case Nil
  from assms have "match_here S E [] = None" by (simp add: match_here_def)
  with assms show ?case by simp
next
  case (Cons c cs)
  show ?case
  proof (cases "match_here S E (c # cs)")
    case (Some mr)
    obtain m0 r0 where mr: "mr = (m0, r0)" by (cases mr)
    with Some have s0: "c # cs = S @ m0 @ E @ r0" and e0: "\<not> sublist E (butlast (m0 @ E))"
      using match_here_iff [OF assms(2), of S "c # cs" m0 r0] by simp_all
    from Some have pre: "prefix S (c # cs)" by (simp add: match_here_def split: if_splits)
    show ?thesis
    proof
      assume "pattern_search S E (c # cs) = Some (p, m, r)"
      with Some mr have "p = []" and "m = m0" and "r = r0" by simp_all
      with s0 e0 early_free_Nil [OF assms(1)]
      show "c # cs = p @ S @ m @ E @ r \<and> \<not> sublist S (butlast (p @ S)) \<and> \<not> sublist E (butlast (m @ E))"
        by simp
    next
      assume a: "c # cs = p @ S @ m @ E @ r \<and> \<not> sublist S (butlast (p @ S)) \<and> \<not> sublist E (butlast (m @ E))"
      have "p = []"
      proof (cases p)
        case Nil
        then show ?thesis .
      next
        case (Cons c' p')
        with a have "\<not> prefix S (c' # p' @ S)"
          using early_free_Cons [OF assms(1), of c' p'] by simp
        moreover from a Cons pre have "prefix S ((c' # p' @ S) @ m @ E @ r)" by simp
        then have "prefix S (c' # p' @ S)"
          by (subst (asm) prefix_length_append) simp_all
        ultimately show ?thesis by simp
      qed
      with a have "match_here S E (c # cs) = Some (m, r)"
        using match_here_iff [OF assms(2), of S "c # cs" m r] by simp
      with \<open>p = []\<close> show "pattern_search S E (c # cs) = Some (p, m, r)" by simp
    qed
  next
    case None
    show ?thesis
    proof
      assume "pattern_search S E (c # cs) = Some (p, m, r)"
      with None obtain p' where l: "pattern_search S E cs = Some (p', m, r)" and p: "p = c # p'"
        by (auto split: option.splits)
      from l Cons.IH have cs: "cs = p' @ S @ m @ E @ r"
        and f: "\<not> sublist S (butlast (p' @ S))" and e: "\<not> sublist E (butlast (m @ E))"
        by simp_all
      from None cs have "\<not> prefix S (c # p' @ S)"
        using match_here_None_prefix [of S E c p' m r] by simp
      with f have "\<not> sublist S (butlast ((c # p') @ S))"
        using early_free_Cons [OF assms(1), of c p'] by simp
      with cs p e
      show "c # cs = p @ S @ m @ E @ r \<and> \<not> sublist S (butlast (p @ S)) \<and> \<not> sublist E (butlast (m @ E))"
        by simp
    next
      assume a: "c # cs = p @ S @ m @ E @ r \<and> \<not> sublist S (butlast (p @ S)) \<and> \<not> sublist E (butlast (m @ E))"
      have "p \<noteq> []"
      proof
        assume "p = []"
        with a have "match_here S E (c # cs) = Some (m, r)"
          using match_here_iff [OF assms(2), of S "c # cs" m r] by simp
        with None show False by simp
      qed
      then obtain p' where p: "p = c # p'" using a by (cases p) auto
      with a have cs: "cs = p' @ S @ m @ E @ r" by simp
      from a p have "\<not> sublist S (butlast (p' @ S))"
        using early_free_Cons [OF assms(1), of c p'] by simp
      with a cs Cons.IH have "pattern_search S E cs = Some (p', m, r)" by simp
      with None p show "pattern_search S E (c # cs) = Some (p, m, r)" by simp
    qed
  qed
qed

lemma pattern_search_None_iff:
  "pattern_search S E s = None \<longleftrightarrow> \<not> (\<exists>p m r. s = p @ S @ m @ E @ r)"
proof
  assume "pattern_search S E s = None"
  show "\<not> (\<exists>p m r. s = p @ S @ m @ E @ r)"
  proof
    assume "\<exists>p m r. s = p @ S @ m @ E @ r"
    then obtain p m r where "s = p @ S @ m @ E @ r" by blast
    have "pattern_search S E (p @ S @ m @ E @ r) \<noteq> None"
    proof (induction p)
      case Nil
      have "lazy_until E (m @ E @ r) \<noteq> None" by (rule lazy_until_found)
      then have "match_here S E (S @ m @ E @ r) \<noteq> None" by (simp add: match_here_def)
      then show ?case by (cases "S @ m @ E @ r") (auto split: option.splits)
    next
      case (Cons c p)
      then show ?case by (auto split: option.splits)
    qed
    with \<open>s = p @ S @ m @ E @ r\<close> \<open>pattern_search S E s = None\<close> show False by simp
  qed
next
  assume "\<not> (\<exists>p m r. s = p @ S @ m @ E @ r)"
  then show "pattern_search S E s = None"
    using pattern_search_Some [of S E s] by (cases "pattern_search S E s") auto
qed


lemma start_marker_nonempty: "start_marker n \<noteq> []"
  by (simp add: start_marker_def)

lemma end_marker_nonempty: "end_marker n \<noteq> []"
  by (simp add: end_marker_def)

lemma tokenize_plain:
  "BSL \<notin> set t \<Longrightarrow> tokenize t = Inr (map (\<lambda>c. [c]) t)"
  by (induction t rule: tokenize.induct) auto

lemma parse_tokens_plain:
  "BSL \<notin> set t \<Longrightarrow> parse_tokens g (map (\<lambda>c. [c]) t) = Inr (map (\<lambda>c. TLit [c]) t)"
  by (induction t) (auto simp: parse_step_def)

lemma parse_template_plain:
  "BSL \<notin> set t \<Longrightarrow> parse_template g t = Inr (map (\<lambda>c. TLit [c]) t)"
  by (simp add: parse_template_def tokenize_plain parse_tokens_plain)

lemma expand_template_plain:
  "expand_template (map (\<lambda>c. TLit [c]) t) gs = t"
  by (induction t) (simp_all add: expand_template_def)

lemma replacement_plain:
  assumes "BSL \<notin> set n" and "BSL \<notin> set b"
  shows "BSL \<notin> set (start_marker n @ [NL] @ b @ [NL] @ end_marker n)"
  using assms by (simp add: start_marker_def end_marker_def BSL_def NL_def)

lemma pattern_sub_None:
  "pattern_search (start_marker n) (end_marker n) s = None \<Longrightarrow> pattern_sub n items s = s"
  by (subst pattern_sub.simps) simp

lemma pattern_sub_plain_Some:
  "pattern_search (start_marker n) (end_marker n) s = Some (p, m, r) \<Longrightarrow>
   pattern_sub n (map (\<lambda>c. TLit [c]) t) s = p @ t @ pattern_sub n (map (\<lambda>c. TLit [c]) t) r"
  by (subst pattern_sub.simps) (simp add: expand_template_plain)

lemma update_readme_section_plain:
  assumes "BSL \<notin> set n" and "BSL \<notin> set b"
  shows "update_readme_section c n b =
    (if pattern_search (start_marker n) (end_marker n) c \<noteq> None
     then Inr (pattern_sub n (map (\<lambda>ch. TLit [ch]) (start_marker n @ [NL] @ b @ [NL] @ end_marker n)) c, [])
     else Inr (c, [''Warning: Section markers for '' @ [CHR 0x27] @ n @ [CHR 0x27]
                   @ '' not found in README'']))"
  using parse_template_plain [OF replacement_plain [OF assms], of 3]
  by (simp add: update_readme_section_def)

lemma pattern_sub_segments:
  assumes "\<forall>(t, m) \<in> set segs.
             \<not> sublist (start_marker n) (butlast (t @ start_marker n)) \<and>
             \<not> sublist (end_marker n) (butlast (m @ end_marker n))"
    and "\<not> (\<exists>a b c. tail = a @ start_marker n @ b @ end_marker n @ c)"
  shows "pattern_sub n (map (\<lambda>c. TLit [c]) repl)
           (concat (map (\<lambda>(t, m). t @ start_marker n @ m @ end_marker n) segs) @ tail)
         = concat (map (\<lambda>(t, m). t @ repl) segs) @ tail"
  using assms(1)
proof (induction segs)
  case Nil
  from assms(2) have "pattern_search (start_marker n) (end_marker n) tail = None"
    by (simp add: pattern_search_None_iff)
  then show ?case by (simp add: pattern_sub_None)
next
  case (Cons seg segs)
  obtain t m where seg: "seg = (t, m)" by (cases seg)
  let ?rest = "concat (map (\<lambda>(t, m). t @ start_marker n @ m @ end_marker n) segs) @ tail"
  from Cons.prems seg
  have "pattern_search (start_marker n) (end_marker n)
          (t @ start_marker n @ m @ end_marker n @ ?rest) = Some (t, m, ?rest)"
    using pattern_search_iff [OF start_marker_nonempty end_marker_nonempty, of n n
            "t @ start_marker n @ m @ end_marker n @ ?rest" t m ?rest]
    by simp
  then have "pattern_sub n (map (\<lambda>c. TLit [c]) repl)
          (t @ start_marker n @ m @ end_marker n @ ?rest)
        = t @ repl @ pattern_sub n (map (\<lambda>c. TLit [c]) repl) ?rest"
    by (rule pattern_sub_plain_Some)
  moreover from Cons have "pattern_sub n (map (\<lambda>c. TLit [c]) repl) ?rest
        = concat (map (\<lambda>(t, m). t @ repl) segs) @ tail"
    by simp
  ultimately show ?case using seg by simp
qed

text \<open>
  Every document has the form that the lemma above speaks about: marker pairs found from
  the left, each with the text before it, and a tail without a pair.
\<close>

lemma document_decomposition:
  "\<exists>segs tail.
     content = concat (map (\<lambda>(t, m). t @ start_marker n @ m @ end_marker n) segs) @ tail \<and>
     (\<forall>(t, m) \<in> set segs.
        \<not> sublist (start_marker n) (butlast (t @ start_marker n)) \<and>
        \<not> sublist (end_marker n) (butlast (m @ end_marker n))) \<and>
     \<not> (\<exists>a b c. tail = a @ start_marker n @ b @ end_marker n @ c)"
proof (induction content rule: length_induct)
  case (1 content)
  let ?S = "start_marker n" and ?E = "end_marker n"
  show ?case
  proof (cases "pattern_search ?S ?E content")
    case None
    then have "\<not> (\<exists>a b c. content = a @ ?S @ b @ ?E @ c)"
      by (rule iffD1 [OF pattern_search_None_iff])
    then show ?thesis by (intro exI [of _ "[]"] exI [of _ content]) simp
  next
    case (Some x)
    obtain p m r where "x = (p, m, r)" by (cases x)
    with Some have s: "pattern_search ?S ?E content = Some (p, m, r)" by simp
    then have dec: "content = p @ ?S @ m @ ?E @ r"
      and fs: "\<not> sublist ?S (butlast (p @ ?S))" and fe: "\<not> sublist ?E (butlast (m @ ?E))"
      using pattern_search_iff [OF start_marker_nonempty end_marker_nonempty, of n n content p m r]
      by simp_all
    from s have "length r < length content" by (rule pattern_search_shorter)
    with 1 obtain segs tail where
      r: "r = concat (map (\<lambda>(t, m). t @ ?S @ m @ ?E) segs) @ tail"
      and c: "\<forall>(t, m) \<in> set segs.
                \<not> sublist ?S (butlast (t @ ?S)) \<and> \<not> sublist ?E (butlast (m @ ?E))"
      and t: "\<not> (\<exists>a b c. tail = a @ ?S @ b @ ?E @ c)"
      by blast
    from dec r have "content = concat (map (\<lambda>(t, m). t @ ?S @ m @ ?E) ((p, m) # segs)) @ tail"
      by simp
    moreover from c fs fe have "\<forall>(t, m) \<in> set ((p, m) # segs).
                \<not> sublist ?S (butlast (t @ ?S)) \<and> \<not> sublist ?E (butlast (m @ ?E))"
      by simp
    ultimately show ?thesis using t by blast
  qed
qed

text \<open>
  Claim C8. If the document holds no start marker of the section that is followed by its
  end marker, \<^verbatim>\<open>update_readme_section\<close> returns the document as it is, whatever the new
  body; it raises nothing, and the one line it prints is the warning.
\<close>

theorem update_readme_section_absent_unchanged:
  assumes "\<not> (\<exists>p m r. content = p @ start_marker section_name @ m @ end_marker section_name @ r)"
  shows "update_readme_section content section_name new_content =
           Inr (content,
                [''Warning: Section markers for '' @ [CHR 0x27] @ section_name @ [CHR 0x27]
                   @ '' not found in README''])"
proof -
  from assms have "pattern_search (start_marker section_name) (end_marker section_name) content = None"
    by (simp add: pattern_search_None_iff)
  then show ?thesis by (simp add: update_readme_section_def)
qed

text \<open>
  Claim C1, as amended. The substitution is not limited to the first match. Take a section
  name and a new body without backslash, and a document made of one or more marker pairs,
  each with the text \<open>t\<close> before it and its old body \<open>m\<close> (the start marker being the
  first one in \<open>t\<close> followed by it, the end marker the first one in \<open>m\<close> followed by
  it), and of a tail that holds no further pair. Then every pair gets the new body, the
  later ones as well as the first, and the text outside the pairs stays as it is.
\<close>

theorem update_readme_section_every_pair:
  assumes "BSL \<notin> set section_name" and "BSL \<notin> set new_content"
    and "segs \<noteq> []"
    and "\<forall>(t, m) \<in> set segs.
           \<not> sublist (start_marker section_name) (butlast (t @ start_marker section_name)) \<and>
           \<not> sublist (end_marker section_name) (butlast (m @ end_marker section_name))"
    and "\<not> (\<exists>a b c. tail = a @ start_marker section_name @ b @ end_marker section_name @ c)"
  shows "update_readme_section
           (concat (map (\<lambda>(t, m). t @ start_marker section_name @ m @ end_marker section_name) segs) @ tail)
           section_name new_content
         = Inr (concat (map (\<lambda>(t, m). t @ start_marker section_name @ [NL] @ new_content @ [NL]
                                        @ end_marker section_name) segs) @ tail, [])"
proof -
  let ?S = "start_marker section_name" and ?E = "end_marker section_name"
  let ?doc = "concat (map (\<lambda>(t, m). t @ ?S @ m @ ?E) segs) @ tail"
  from assms(3) obtain t m segs' where segs: "segs = (t, m) # segs'"
    by (cases segs) auto
  then have "?doc = t @ ?S @ m @ ?E @ (concat (map (\<lambda>(t, m). t @ ?S @ m @ ?E) segs') @ tail)"
    by simp
  then have "\<exists>p m r. ?doc = p @ ?S @ m @ ?E @ r" by blast
  then have "pattern_search ?S ?E ?doc \<noteq> None"
    by (simp add: pattern_search_None_iff)
  then have "update_readme_section ?doc section_name new_content =
        Inr (pattern_sub section_name (map (\<lambda>ch. TLit [ch]) (?S @ [NL] @ new_content @ [NL] @ ?E)) ?doc, [])"
    by (simp add: update_readme_section_plain [OF assms(1,2)])
  also have "pattern_sub section_name (map (\<lambda>ch. TLit [ch]) (?S @ [NL] @ new_content @ [NL] @ ?E)) ?doc
        = concat (map (\<lambda>(t, m). t @ (?S @ [NL] @ new_content @ [NL] @ ?E)) segs) @ tail"
    by (rule pattern_sub_segments [OF assms(4,5)])
  finally show ?thesis by simp
qed


lemma update_readme_section_plain_fst:
  assumes "BSL \<notin> set n" and "BSL \<notin> set b"
  shows "\<exists>w. update_readme_section c n b =
    Inr (pattern_sub n (map (\<lambda>ch. TLit [ch]) (start_marker n @ [NL] @ b @ [NL] @ end_marker n)) c, w)"
  by (cases "pattern_search (start_marker n) (end_marker n) c")
     (simp_all add: update_readme_section_plain [OF assms] pattern_sub_None)

text \<open>
  Claim C6, as amended. Take a section name and a new body without backslash, and a
  document that holds a start marker followed by an end marker. Then the document splits
  at the first start marker and the first end marker behind it; the text before the start
  marker is kept, the text between the markers becomes a newline, the new body and a
  newline, and the text behind the end marker becomes what \<^verbatim>\<open>update_readme_section\<close>
  makes of that text alone: it is kept where it holds no further marker pair. The example
  of the claim holds as it is written.
\<close>

theorem update_readme_section_first_pair:
  assumes "BSL \<notin> set section_name" and "BSL \<notin> set new_content"
    and "\<exists>a b c. content = a @ start_marker section_name @ b @ end_marker section_name @ c"
  shows "(\<exists>pre mid post post' w.
            content = pre @ start_marker section_name @ mid @ end_marker section_name @ post \<and>
            \<not> sublist (start_marker section_name) (butlast (pre @ start_marker section_name)) \<and>
            \<not> sublist (end_marker section_name) (butlast (mid @ end_marker section_name)) \<and>
            update_readme_section post section_name new_content = Inr (post', w) \<and>
            ((\<nexists>a b c. post = a @ start_marker section_name @ b @ end_marker section_name @ c)
               \<longrightarrow> post' = post) \<and>
            update_readme_section content section_name new_content =
              Inr (pre @ start_marker section_name @ [NL] @ new_content @ [NL]
                     @ end_marker section_name @ post', []))
         \<and> update_readme_section ''X <!-- ACTIVITY_START -->old<!-- ACTIVITY_END --> Y''
              ''ACTIVITY'' ''new''
             = Inr (''X <!-- ACTIVITY_START -->\<newline>new\<newline><!-- ACTIVITY_END --> Y'', [])"
proof
  let ?S = "start_marker section_name" and ?E = "end_marker section_name"
  let ?items = "map (\<lambda>ch. TLit [ch]) (?S @ [NL] @ new_content @ [NL] @ ?E)"
  from assms(3) have found: "pattern_search ?S ?E content \<noteq> None"
    by (simp add: pattern_search_None_iff)
  then obtain pre mid post where s: "pattern_search ?S ?E content = Some (pre, mid, post)"
    by (cases "pattern_search ?S ?E content") auto
  then have dec: "content = pre @ ?S @ mid @ ?E @ post"
    and fs: "\<not> sublist ?S (butlast (pre @ ?S))" and fe: "\<not> sublist ?E (butlast (mid @ ?E))"
    using pattern_search_iff [OF start_marker_nonempty end_marker_nonempty,
            of section_name section_name content pre mid post]
    by simp_all
  obtain w where post: "update_readme_section post section_name new_content
        = Inr (pattern_sub section_name ?items post, w)"
    using update_readme_section_plain_fst [OF assms(1,2)] by blast
  have keep: "(\<nexists>a b c. post = a @ ?S @ b @ ?E @ c) \<longrightarrow> pattern_sub section_name ?items post = post"
    by (simp add: pattern_search_None_iff pattern_sub_None)
  from found have "update_readme_section content section_name new_content
        = Inr (pattern_sub section_name ?items content, [])"
    by (simp add: update_readme_section_plain [OF assms(1,2)])
  also from s have "pattern_sub section_name ?items content
        = pre @ (?S @ [NL] @ new_content @ [NL] @ ?E) @ pattern_sub section_name ?items post"
    by (rule pattern_sub_plain_Some)
  finally have "update_readme_section content section_name new_content
        = Inr (pre @ ?S @ [NL] @ new_content @ [NL] @ ?E @ pattern_sub section_name ?items post, [])"
    by simp
  with dec fs fe post keep
  show "\<exists>pre mid post post' w.
            content = pre @ ?S @ mid @ ?E @ post \<and>
            \<not> sublist ?S (butlast (pre @ ?S)) \<and>
            \<not> sublist ?E (butlast (mid @ ?E)) \<and>
            update_readme_section post section_name new_content = Inr (post', w) \<and>
            ((\<nexists>a b c. post = a @ ?S @ b @ ?E @ c) \<longrightarrow> post' = post) \<and>
            update_readme_section content section_name new_content =
              Inr (pre @ ?S @ [NL] @ new_content @ [NL] @ ?E @ post', [])"
    by blast
next
  show "update_readme_section ''X <!-- ACTIVITY_START -->old<!-- ACTIVITY_END --> Y''
              ''ACTIVITY'' ''new''
             = Inr (''X <!-- ACTIVITY_START -->\<newline>new\<newline><!-- ACTIVITY_END --> Y'', [])"
    by code_simp
qed

lemma pattern_sub_idem:
  assumes "\<not> sublist (end_marker n) (butlast (([NL] @ b @ [NL]) @ end_marker n))"
  shows "pattern_sub n (map (\<lambda>ch. TLit [ch]) (start_marker n @ [NL] @ b @ [NL] @ end_marker n))
           (pattern_sub n (map (\<lambda>ch. TLit [ch]) (start_marker n @ [NL] @ b @ [NL] @ end_marker n)) s)
         = pattern_sub n (map (\<lambda>ch. TLit [ch]) (start_marker n @ [NL] @ b @ [NL] @ end_marker n)) s"
proof (induction s rule: length_induct)
  case (1 s)
  let ?S = "start_marker n" and ?E = "end_marker n"
  let ?items = "map (\<lambda>ch. TLit [ch]) (?S @ [NL] @ b @ [NL] @ ?E)"
  show ?case
  proof (cases "pattern_search ?S ?E s")
    case None
    then show ?thesis by (simp add: pattern_sub_None)
  next
    case (Some x)
    obtain p m r where x: "x = (p, m, r)" by (cases x)
    with Some have s: "pattern_search ?S ?E s = Some (p, m, r)" by simp
    then have fs: "\<not> sublist ?S (butlast (p @ ?S))"
      using pattern_search_iff [OF start_marker_nonempty end_marker_nonempty, of n n s p m r]
      by simp
    from s have "length r < length s" by (rule pattern_search_shorter)
    with 1 have IH: "pattern_sub n ?items (pattern_sub n ?items r) = pattern_sub n ?items r"
      by simp
    from s have once: "pattern_sub n ?items s = p @ (?S @ [NL] @ b @ [NL] @ ?E) @ pattern_sub n ?items r"
      by (rule pattern_sub_plain_Some)
    from fs assms
    have "pattern_search ?S ?E (p @ ?S @ ([NL] @ b @ [NL]) @ ?E @ pattern_sub n ?items r)
            = Some (p, [NL] @ b @ [NL], pattern_sub n ?items r)"
      using pattern_search_iff [OF start_marker_nonempty end_marker_nonempty, of n n
              "p @ ?S @ ([NL] @ b @ [NL]) @ ?E @ pattern_sub n ?items r" p "[NL] @ b @ [NL]"
              "pattern_sub n ?items r"]
      by simp
    then have "pattern_sub n ?items (p @ ?S @ ([NL] @ b @ [NL]) @ ?E @ pattern_sub n ?items r)
            = p @ (?S @ [NL] @ b @ [NL] @ ?E) @ pattern_sub n ?items (pattern_sub n ?items r)"
      by (rule pattern_sub_plain_Some)
    with once IH show ?thesis by simp
  qed
qed

text \<open>
  Claim C7, as amended. Take a section name and a new body without backslash, such that
  the end marker occurs in the text newline, body, newline, end marker at its end only
  (so the body does not contain the end marker). Then \<^verbatim>\<open>update_readme_section\<close> does
  not raise, and applied to its own result it returns that result again, with the same
  printed lines.
\<close>

theorem update_readme_section_idempotent:
  assumes "BSL \<notin> set section_name" and "BSL \<notin> set new_content"
    and "\<not> sublist (end_marker section_name)
             (butlast ([NL] @ new_content @ [NL] @ end_marker section_name))"
  shows "\<exists>content' w.
           update_readme_section content section_name new_content = Inr (content', w) \<and>
           update_readme_section content' section_name new_content = Inr (content', w)"
proof -
  let ?S = "start_marker section_name" and ?E = "end_marker section_name"
  let ?items = "map (\<lambda>ch. TLit [ch]) (?S @ [NL] @ new_content @ [NL] @ ?E)"
  from assms(3) have e: "\<not> sublist ?E (butlast (([NL] @ new_content @ [NL]) @ ?E))" by simp
  show ?thesis
  proof (cases "pattern_search ?S ?E content")
    case None
    then have "update_readme_section content section_name new_content =
        Inr (content, [''Warning: Section markers for '' @ [CHR 0x27] @ section_name @ [CHR 0x27]
                   @ '' not found in README''])"
      by (simp add: update_readme_section_def)
    then show ?thesis by blast
  next
    case (Some x)
    obtain p m r where x: "x = (p, m, r)" by (cases x)
    with Some have s: "pattern_search ?S ?E content = Some (p, m, r)" by simp
    then have first: "update_readme_section content section_name new_content
        = Inr (pattern_sub section_name ?items content, [])"
      by (simp add: update_readme_section_plain [OF assms(1,2)])
    from s have "pattern_sub section_name ?items content
        = p @ ?S @ ([NL] @ new_content @ [NL]) @ ?E @ pattern_sub section_name ?items r"
      using pattern_sub_plain_Some [of section_name content p m r "?S @ [NL] @ new_content @ [NL] @ ?E"]
      by simp
    then have "\<exists>a b c. pattern_sub section_name ?items content = a @ ?S @ b @ ?E @ c"
      by blast
    then have "pattern_search ?S ?E (pattern_sub section_name ?items content) \<noteq> None"
      by (simp add: pattern_search_None_iff)
    then have "update_readme_section (pattern_sub section_name ?items content) section_name new_content
        = Inr (pattern_sub section_name ?items (pattern_sub section_name ?items content), [])"
      by (simp add: update_readme_section_plain [OF assms(1,2)])
    with pattern_sub_idem [OF e, of content] first show ?thesis by simp
  qed
qed

text \<open>
  The condition on the body holds whenever the section name has no newline and the body
  does not contain the end marker.
\<close>

lemma sublist_around:
  assumes "c \<notin> set lit" and "sublist lit (xs @ c # ys)"
  shows "sublist lit xs \<or> sublist lit ys"
proof -
  from assms(2) consider "sublist lit xs" | "sublist lit (c # ys)"
    | xs1 xs2 where "lit = xs1 @ xs2" "suffix xs1 xs" "prefix xs2 (c # ys)"
    by (auto simp: sublist_append)
  then show ?thesis
  proof cases
    case 1
    then show ?thesis by simp
  next
    case 2
    then have "prefix lit (c # ys) \<or> sublist lit ys" by (simp add: sublist_Cons_right)
    moreover have "\<not> prefix lit (c # ys) \<or> lit = []"
      using assms(1) by (cases lit) auto
    ultimately show ?thesis by auto
  next
    case 3
    show ?thesis
    proof (cases xs2)
      case Nil
      with 3(1,2) have "suffix lit xs" by simp
      then show ?thesis by (simp add: suffix_imp_sublist)
    next
      case (Cons d ds)
      with 3(3) have "c \<in> set xs2" by auto
      with 3(1) assms(1) show ?thesis by simp
    qed
  qed
qed

lemma end_marker_only_at_end:
  assumes "NL \<notin> set n" and "\<not> sublist (end_marker n) b"
  shows "\<not> sublist (end_marker n) (butlast ([NL] @ b @ [NL] @ end_marker n))"
proof
  let ?E = "end_marker n"
  assume a: "sublist ?E (butlast ([NL] @ b @ [NL] @ ?E))"
  from assms(1) have nl: "NL \<notin> set ?E" by (simp add: end_marker_def NL_def)
  have "butlast ([NL] @ b @ [NL] @ ?E) = [] @ NL # (b @ NL # butlast ?E)"
    by (simp add: butlast_append end_marker_nonempty)
  with a have "sublist ?E [] \<or> sublist ?E (b @ NL # butlast ?E)"
    using sublist_around [OF nl, of "[]" "b @ NL # butlast ?E"] by simp
  then have "sublist ?E (b @ NL # butlast ?E)" by (simp add: end_marker_nonempty)
  then have "sublist ?E b \<or> sublist ?E (butlast ?E)" using nl by (rule sublist_around [rotated])
  with assms(2) have "sublist ?E (butlast ?E)" by simp
  then have "length ?E \<le> length (butlast ?E)" by (rule sublist_length_le)
  also have "\<dots> = length ?E - 1" by simp
  finally have "length ?E = 0" by arith
  then show False by (simp add: end_marker_nonempty)
qed

subsection \<open>Instances\<close>

theorem update_readme_section_absent_unchanged_witness:
  "\<not> (\<exists>p m r. ''# Profile'' = p @ start_marker ''ACTIVITY'' @ m @ end_marker ''ACTIVITY'' @ r) \<and>
   update_readme_section ''# Profile'' ''ACTIVITY'' ''new'' =
     Inr (''# Profile'', [''Warning: Section markers for '' @ [CHR 0x27] @ ''ACTIVITY'' @ [CHR 0x27]
                            @ '' not found in README''])"
proof -
  have "pattern_search (start_marker ''ACTIVITY'') (end_marker ''ACTIVITY'') ''# Profile'' = None"
    by code_simp
  then have h: "\<not> (\<exists>p m r. ''# Profile'' = p @ start_marker ''ACTIVITY'' @ m @ end_marker ''ACTIVITY'' @ r)"
    by (rule iffD1 [OF pattern_search_None_iff])
  from h update_readme_section_absent_unchanged [OF h, of "''new''"] show ?thesis by blast
qed

text \<open>
  With two marker pairs in the document, the body of the second pair is replaced too: the
  result is not the document with only its first pair renewed.
\<close>

theorem update_readme_section_first_only_counterexample:
  "update_readme_section ''<!-- A_START -->a<!-- A_END --> <!-- A_START -->b<!-- A_END -->'' ''A'' ''n''
     = Inr (''<!-- A_START -->\<newline>n\<newline><!-- A_END --> <!-- A_START -->\<newline>n\<newline><!-- A_END -->'', []) \<and>
   update_readme_section ''<!-- A_START -->a<!-- A_END --> <!-- A_START -->b<!-- A_END -->'' ''A'' ''n''
     \<noteq> Inr (''<!-- A_START -->\<newline>n\<newline><!-- A_END --> <!-- A_START -->b<!-- A_END -->'', [])"
  by code_simp

theorem update_readme_section_every_pair_witness:
  "BSL \<notin> set ''A'' \<and> BSL \<notin> set ''n'' \<and> [('''', ''a''), ('' '', ''b'')] \<noteq> [] \<and>
   \<not> sublist (start_marker ''A'') (butlast ('''' @ start_marker ''A'')) \<and>
   \<not> sublist (end_marker ''A'') (butlast (''a'' @ end_marker ''A'')) \<and>
   \<not> sublist (start_marker ''A'') (butlast ('' '' @ start_marker ''A'')) \<and>
   \<not> sublist (end_marker ''A'') (butlast (''b'' @ end_marker ''A'')) \<and>
   \<not> (\<exists>a b c. ''!'' = a @ start_marker ''A'' @ b @ end_marker ''A'' @ c) \<and>
   update_readme_section ''<!-- A_START -->a<!-- A_END --> <!-- A_START -->b<!-- A_END -->!'' ''A'' ''n''
     = Inr (''<!-- A_START -->\<newline>n\<newline><!-- A_END --> <!-- A_START -->\<newline>n\<newline><!-- A_END -->!'', [])"
proof -
  have h1: "BSL \<notin> set ''A''" and h2: "BSL \<notin> set ''n''" by code_simp+
  have h3: "[('''', ''a''), ('' '', ''b'')] \<noteq> ([] :: (string \<times> string) list)" by simp
  have h4: "\<forall>(t, m) \<in> set [('''', ''a''), ('' '', ''b'')].
      \<not> sublist (start_marker ''A'') (butlast (t @ start_marker ''A'')) \<and>
      \<not> sublist (end_marker ''A'') (butlast (m @ end_marker ''A''))"
    by code_simp
  have "pattern_search (start_marker ''A'') (end_marker ''A'') ''!'' = None" by code_simp
  then have h5: "\<not> (\<exists>a b c. ''!'' = a @ start_marker ''A'' @ b @ end_marker ''A'' @ c)"
    by (rule iffD1 [OF pattern_search_None_iff])
  have "update_readme_section ''<!-- A_START -->a<!-- A_END --> <!-- A_START -->b<!-- A_END -->!'' ''A'' ''n''
     = Inr (''<!-- A_START -->\<newline>n\<newline><!-- A_END --> <!-- A_START -->\<newline>n\<newline><!-- A_END -->!'', [])"
    using update_readme_section_every_pair [OF h1 h2 h3 h4 h5]
    by (simp add: start_marker_def end_marker_def NL_def)
  moreover from h4
  have "\<not> sublist (start_marker ''A'') (butlast ('''' @ start_marker ''A''))"
    and "\<not> sublist (end_marker ''A'') (butlast (''a'' @ end_marker ''A''))"
    and "\<not> sublist (start_marker ''A'') (butlast ('' '' @ start_marker ''A''))"
    and "\<not> sublist (end_marker ''A'') (butlast (''b'' @ end_marker ''A''))"
    by simp_all
  ultimately show ?thesis using h1 h2 h3 h5 by blast
qed

text \<open>
  Text outside the first marker pair is not always kept: a second pair behind it loses its
  body.
\<close>

theorem update_readme_section_outside_counterexample:
  "update_readme_section
     ''X <!-- ACTIVITY_START -->old<!-- ACTIVITY_END --> Y <!-- ACTIVITY_START -->keep<!-- ACTIVITY_END -->''
     ''ACTIVITY'' ''new''
   \<noteq> Inr (''X <!-- ACTIVITY_START -->\<newline>new\<newline><!-- ACTIVITY_END --> Y <!-- ACTIVITY_START -->keep<!-- ACTIVITY_END -->'', [])"
  by code_simp

theorem update_readme_section_first_pair_witness:
  "BSL \<notin> set ''ACTIVITY'' \<and> BSL \<notin> set ''new'' \<and>
   (\<exists>a b c. ''X <!-- ACTIVITY_START -->old<!-- ACTIVITY_END --> Y''
        = a @ start_marker ''ACTIVITY'' @ b @ end_marker ''ACTIVITY'' @ c) \<and>
   (\<exists>pre mid post post' w.
      ''X <!-- ACTIVITY_START -->old<!-- ACTIVITY_END --> Y''
        = pre @ start_marker ''ACTIVITY'' @ mid @ end_marker ''ACTIVITY'' @ post \<and>
      update_readme_section post ''ACTIVITY'' ''new'' = Inr (post', w) \<and>
      update_readme_section ''X <!-- ACTIVITY_START -->old<!-- ACTIVITY_END --> Y'' ''ACTIVITY'' ''new''
        = Inr (pre @ start_marker ''ACTIVITY'' @ [NL] @ ''new'' @ [NL] @ end_marker ''ACTIVITY'' @ post', []))"
proof -
  have h1: "BSL \<notin> set ''ACTIVITY''" and h2: "BSL \<notin> set ''new''" by code_simp+
  have "''X <!-- ACTIVITY_START -->old<!-- ACTIVITY_END --> Y''
        = ''X '' @ start_marker ''ACTIVITY'' @ ''old'' @ end_marker ''ACTIVITY'' @ '' Y''"
    by (simp add: start_marker_def end_marker_def)
  then have h3: "\<exists>a b c. ''X <!-- ACTIVITY_START -->old<!-- ACTIVITY_END --> Y''
        = a @ start_marker ''ACTIVITY'' @ b @ end_marker ''ACTIVITY'' @ c"
    by blast
  from update_readme_section_first_pair [OF h1 h2 h3] h1 h2 h3 show ?thesis by blast
qed

text \<open>
  A body that contains the end marker: the second run stops at the end marker inside the
  body, and the rest of the first run's body stays behind the section.
\<close>

theorem update_readme_section_not_idempotent_counterexample:
  "update_readme_section ''<!-- A_START --><!-- A_END -->'' ''A'' ''<!-- A_END -->''
     = Inr (''<!-- A_START -->\<newline><!-- A_END -->\<newline><!-- A_END -->'', []) \<and>
   update_readme_section ''<!-- A_START -->\<newline><!-- A_END -->\<newline><!-- A_END -->'' ''A'' ''<!-- A_END -->''
     = Inr (''<!-- A_START -->\<newline><!-- A_END -->\<newline><!-- A_END -->\<newline><!-- A_END -->'', []) \<and>
   ''<!-- A_START -->\<newline><!-- A_END -->\<newline><!-- A_END -->\<newline><!-- A_END -->''
     \<noteq> ''<!-- A_START -->\<newline><!-- A_END -->\<newline><!-- A_END -->''"
  by code_simp

theorem update_readme_section_idempotent_witness:
  "BSL \<notin> set ''UPDATED'' \<and> BSL \<notin> set ''_Last updated: now_'' \<and>
   \<not> sublist (end_marker ''UPDATED'')
        (butlast ([NL] @ ''_Last updated: now_'' @ [NL] @ end_marker ''UPDATED'')) \<and>
   (\<exists>content' w.
      update_readme_section ''<!-- UPDATED_START -->old<!-- UPDATED_END -->'' ''UPDATED'' ''_Last updated: now_''
        = Inr (content', w) \<and>
      update_readme_section content' ''UPDATED'' ''_Last updated: now_'' = Inr (content', w))"
proof -
  have h1: "BSL \<notin> set ''UPDATED''" and h2: "BSL \<notin> set ''_Last updated: now_''" by code_simp+
  have h3: "\<not> sublist (end_marker ''UPDATED'')
        (butlast ([NL] @ ''_Last updated: now_'' @ [NL] @ end_marker ''UPDATED''))"
    by code_simp
  from update_readme_section_idempotent [OF h1 h2 h3] h1 h2 h3 show ?thesis by blast
qed

text \<open>
  A backslash in the body is read by the template parser: \<^verbatim>\<open>\2\<close> puts the old body
  back, and an unknown escape such as \<^verbatim>\<open>\d\<close> makes \<^verbatim>\<open>pattern.sub\<close> raise.
\<close>

lemma backslash_body_group_reference:
  "update_readme_section ''X <!-- A_START -->old<!-- A_END --> Y'' ''A'' [BSL, CHR ''2'']
     = Inr (''X <!-- A_START -->\<newline>old\<newline><!-- A_END --> Y'', [])"
  by code_simp

lemma backslash_body_error:
  "update_readme_section ''X <!-- A_START -->old<!-- A_END --> Y'' ''A'' [BSL, CHR ''d'']
     = Inl ReplacementError"
  by code_simp

section \<open>Properties of the collectors and the renderer\<close>

lemma lower_char_hex:
  "\<forall>c \<in> set ''0123456789abcdefABCDEF''. lower_char c \<in> set ''0123456789abcdef''"
  by code_simp

lemma hex_hash_like:
  assumes "length owner_name > 30"
    and "\<forall>c \<in> set owner_name. c \<in> set ''0123456789abcdefABCDEF''"
  shows "hash_like owner_name"
proof -
  have "\<forall>c \<in> set (lower owner_name). c \<in> set ''0123456789abcdef''"
  proof
    fix c
    assume "c \<in> set (lower owner_name)"
    then obtain d where d: "d \<in> set owner_name" and c: "c = lower_char d"
      unfolding lower_def by (metis imageE list.set_map)
    from assms(2) d have "d \<in> set ''0123456789abcdefABCDEF''" by (rule bspec)
    with lower_char_hex have "lower_char d \<in> set ''0123456789abcdef''" by (rule bspec)
    with c show "c \<in> set ''0123456789abcdef''" by (simp only:)
  qed
  with assms(1) show ?thesis unfolding hash_like_def by (rule conjI)
qed

lemma contributions_loop_append:
  "contributions_loop cutoff_iso (xs @ ys) acc
     = contributions_loop cutoff_iso ys (contributions_loop cutoff_iso xs acc)"
  by (induction xs arbitrary: acc) (simp_all add: Let_def)

text \<open>
  Claim C5. An entry of the GraphQL result whose owner login is longer than 30 characters
  and made of hexadecimal digits only (either case) yields no record, whatever its pull
  requests are: the round of the loop for that entry leaves the list of contributions as
  it is, and \<^verbatim>\<open>get_open_source_contributions\<close> returns what it returns when the
  entry is left out of the result.
\<close>

theorem hash_like_owner_no_record:
  assumes "length (gql_owner_login (rc_repository repo_contribution)) > 30"
    and "\<forall>c \<in> set (gql_owner_login (rc_repository repo_contribution)).
           c \<in> set ''0123456789abcdefABCDEF''"
    and "graphql env contributions_query = Some (GqlData (before @ repo_contribution # after))"
  shows "(\<forall>rest contributions.
            contributions_loop cutoff_iso (repo_contribution # rest) contributions
              = contributions_loop cutoff_iso rest contributions) \<and>
         get_open_source_contributions env cutoff_iso log =
         get_open_source_contributions
           (env\<lparr>graphql := (\<lambda>query. Some (GqlData (before @ after)))\<rparr>) cutoff_iso log"
proof
  from assms(1,2) have "hash_like (gql_owner_login (rc_repository repo_contribution))"
    by (rule hex_hash_like)
  then have skip: "\<And>rest acc. contributions_loop cutoff_iso (repo_contribution # rest) acc
      = contributions_loop cutoff_iso rest acc"
    by (simp add: Let_def)
  then show "\<forall>rest contributions.
            contributions_loop cutoff_iso (repo_contribution # rest) contributions
              = contributions_loop cutoff_iso rest contributions"
    by blast
  have "contributions_loop cutoff_iso (before @ repo_contribution # after) []
      = contributions_loop cutoff_iso (before @ after) []"
    by (simp only: contributions_loop_append skip)
  with assms(3) show "get_open_source_contributions env cutoff_iso log =
         get_open_source_contributions
           (env\<lparr>graphql := (\<lambda>query. Some (GqlData (before @ after)))\<rparr>) cutoff_iso log"
    by (simp add: get_open_source_contributions_def github_graphql_request_def)
qed


lemma own_repo_step_log:
  "fst (own_repo_step env cutoff_iso repo log) = fst (own_repo_step env cutoff_iso repo [])"
  by (simp add: own_repo_step_def github_api_request_def Let_def
           split: option.splits list.splits)

lemma own_repos_loop_fst:
  "fst (own_repos_loop env cutoff_iso repos acc log)
     = acc @ List.map_filter (\<lambda>repo. fst (own_repo_step env cutoff_iso repo [])) repos"
proof (induction repos arbitrary: acc log)
  case Nil
  show ?case by (simp add: List.map_filter_simps)
next
  case (Cons repo repos)
  obtain a log' where step: "own_repo_step env cutoff_iso repo log = (a, log')"
    by (cases "own_repo_step env cutoff_iso repo log")
  then have a: "fst (own_repo_step env cutoff_iso repo []) = a"
    using own_repo_step_log [of env cutoff_iso repo log] by simp
  show ?case
  proof (cases a)
    case None
    with step a Cons.IH [of acc log'] show ?thesis
      by (simp add: List.map_filter_simps)
  next
    case (Some x)
    with step a Cons.IH [of "acc @ [x]" log'] show ?thesis
      by (simp add: List.map_filter_simps)
  qed
qed

lemma get_own_repos_activity_fst:
  "fst (get_own_repos_activity env cutoff_iso log)
     = (case rest_repos env repos_url of
          None \<Rightarrow> []
        | Some repos \<Rightarrow> List.map_filter (\<lambda>repo. fst (own_repo_step env cutoff_iso repo [])) repos)"
  by (simp add: get_own_repos_activity_def github_api_request_def own_repos_loop_fst
           List.map_filter_simps del: own_repos_loop.simps split: option.splits list.splits)

lemma own_repo_step_rest_repos:
  "own_repo_step (env\<lparr>rest_repos := f\<rparr>) cutoff_iso repo log = own_repo_step env cutoff_iso repo log"
  by (simp add: own_repo_step_def cong: option.case_cong if_cong prod.case_cong list.case_cong)

lemma own_repo_step_skipped:
  assumes "repo_pushed_at repo = None \<or>
           (\<exists>pushed_at. repo_pushed_at repo = Some pushed_at \<and> pushed_at < cutoff_iso) \<or>
           rest_commits env (commits_url repo cutoff_iso) = None \<or>
           rest_commits env (commits_url repo cutoff_iso) = Some []"
  shows "fst (own_repo_step env cutoff_iso repo log) = None"
  using assms
  by (auto simp: own_repo_step_def github_api_request_def Let_def split: option.splits)

text \<open>
  Claim C3. A repository of the listing whose \<^verbatim>\<open>pushed_at\<close> is missing or strictly
  before the cutoff, or whose commits fetch fails or returns no commit, yields no record:
  the round of the loop for that repository leaves \<^verbatim>\<open>recent_repos\<close> as it is, and
  the records \<^verbatim>\<open>get_own_repos_activity\<close> returns are those it returns when the
  repository is left out of the listing.
\<close>

theorem stale_or_idle_repo_no_record:
  assumes "rest_repos env repos_url = Some (before @ repo # after)"
    and "repo_pushed_at repo = None \<or>
         (\<exists>pushed_at. repo_pushed_at repo = Some pushed_at \<and> pushed_at < cutoff_iso) \<or>
         rest_commits env (commits_url repo cutoff_iso) = None \<or>
         rest_commits env (commits_url repo cutoff_iso) = Some []"
  shows "(\<forall>rest recent_repos. \<exists>log'.
            own_repos_loop env cutoff_iso (repo # rest) recent_repos log
              = own_repos_loop env cutoff_iso rest recent_repos log') \<and>
         fst (get_own_repos_activity env cutoff_iso log) =
         fst (get_own_repos_activity
                (env\<lparr>rest_repos := (\<lambda>url. Some (before @ after))\<rparr>) cutoff_iso log)"
proof
  from assms(2) have "fst (own_repo_step env cutoff_iso repo log) = None"
    by (rule own_repo_step_skipped)
  then obtain log' where "own_repo_step env cutoff_iso repo log = (None, log')"
    by (cases "own_repo_step env cutoff_iso repo log") simp
  then have "\<And>rest recent_repos.
      own_repos_loop env cutoff_iso (repo # rest) recent_repos log
        = own_repos_loop env cutoff_iso rest recent_repos log'"
    by simp
  then show "\<forall>rest recent_repos. \<exists>log'.
            own_repos_loop env cutoff_iso (repo # rest) recent_repos log
              = own_repos_loop env cutoff_iso rest recent_repos log'"
    by blast
  from assms(2) have "fst (own_repo_step env cutoff_iso repo []) = None"
    by (rule own_repo_step_skipped)
  then have "List.map_filter (\<lambda>repo. fst (own_repo_step env cutoff_iso repo [])) (before @ repo # after)
      = List.map_filter (\<lambda>repo. fst (own_repo_step env cutoff_iso repo [])) (before @ after)"
    by (simp add: List.map_filter_def)
  with assms(1) show "fst (get_own_repos_activity env cutoff_iso log) =
         fst (get_own_repos_activity
                (env\<lparr>rest_repos := (\<lambda>url. Some (before @ after))\<rparr>) cutoff_iso log)"
    by (simp add: get_own_repos_activity_fst own_repo_step_rest_repos)
qed








text \<open>
  Claim C9. The empty activity list is rendered as the placeholder.
\<close>

theorem generate_activity_markdown_empty:
  "generate_activity_markdown [] = ''_No recent activity_''"
  by (simp add: generate_activity_markdown_def)

lemma mset_sort_reverse: "mset (sort_reverse key xs) = mset xs"
  by (simp add: sort_reverse_def)

lemma sorted_sort_reverse:
  "sorted_wrt (\<lambda>a b. key a \<ge> key b) (sort_reverse key xs)"
proof -
  have "sorted (map key (sort_key key (rev xs)))" by (rule sorted_sort_key)
  then have "sorted_wrt (\<lambda>a b. key a \<le> key b) (sort_key key (rev xs))"
    by (simp add: sorted_wrt_map)
  then show ?thesis by (simp add: sort_reverse_def sorted_wrt_rev)
qed

lemma stable_sort_reverse:
  "filter (\<lambda>a. key a = k) (sort_reverse key xs) = filter (\<lambda>a. key a = k) xs"
proof -
  have "filter (\<lambda>a. key a = k) (sort_key key (rev xs)) = filter (\<lambda>a. key a = k) (rev xs)"
    by (rule sort_key_stable)
  then have "rev (filter (\<lambda>a. key a = k) (sort_key key (rev xs))) = filter (\<lambda>a. key a = k) xs"
    by (simp add: rev_filter)
  then show ?thesis by (simp add: sort_reverse_def rev_filter)
qed

lemma sort_reverse_pair:
  "key a < key b \<Longrightarrow> sort_reverse key [a, b] = [b, a]"
  by (auto simp: sort_reverse_def)

text \<open>
  Claim C2. Where the clock gives a cutoff, \<^verbatim>\<open>get_all_activity\<close> returns the slice
  \<^verbatim>\<open>[:limit]\<close>, which for a \<open>limit\<close> that is not negative is the first \<open>limit\<close>
  elements, of a list that is a rearrangement of the owned-repository records followed by
  the contribution records, is sorted by \<^verbatim>\<open>latest_activity\<close> in descending order of
  strings, and keeps records with the same timestamp in their order, owned repositories
  before contributions. With one record of each kind, the contribution being the later
  one, and a limit of at least 2, the result is the contribution followed by the
  repository.
\<close>

theorem get_all_activity_sorted:
  assumes "days_ago env (months * 30) = Some cutoff_iso"
    and "get_own_repos_activity env cutoff_iso log = (own_repos, log1)"
    and "get_open_source_contributions env cutoff_iso log1 = (contributions, log2)"
  shows "\<exists>all_activity.
           get_all_activity env months limit log = Inr (slice_to limit all_activity, log2) \<and>
           (0 \<le> limit \<longrightarrow> slice_to limit all_activity = take (nat limit) all_activity) \<and>
           mset all_activity = mset (own_repos @ contributions) \<and>
           sorted_wrt (\<lambda>a b. latest_activity a \<ge> latest_activity b) all_activity \<and>
           (\<forall>k. filter (\<lambda>a. latest_activity a = k) all_activity
                  = filter (\<lambda>a. latest_activity a = k) own_repos
                    @ filter (\<lambda>a. latest_activity a = k) contributions) \<and>
           (\<forall>a b. own_repos = [a] \<and> contributions = [b] \<and>
                   latest_activity a < latest_activity b \<and> 2 \<le> limit \<longrightarrow>
                   get_all_activity env months limit log = Inr ([b, a], log2))"
proof -
  let ?s = "sort_reverse latest_activity (own_repos @ contributions)"
  from assms have run: "get_all_activity env months limit log = Inr (slice_to limit ?s, log2)"
    by (simp add: get_all_activity_def)
  have first: "0 \<le> limit \<longrightarrow> slice_to limit ?s = take (nat limit) ?s"
    by (simp add: slice_to_def)
  have pair: "\<forall>a b. own_repos = [a] \<and> contributions = [b] \<and>
                   latest_activity a < latest_activity b \<and> 2 \<le> limit \<longrightarrow>
                   get_all_activity env months limit log = Inr ([b, a], log2)"
  proof (intro allI impI)
    fix a b
    assume h: "own_repos = [a] \<and> contributions = [b] \<and>
                   latest_activity a < latest_activity b \<and> 2 \<le> limit"
    then have "?s = [b, a]" using sort_reverse_pair [of latest_activity a b] by simp
    moreover from h have "2 \<le> nat limit" and "0 \<le> limit" by arith+
    then have "slice_to limit [b, a] = [b, a]" by (simp add: slice_to_def)
    ultimately show "get_all_activity env months limit log = Inr ([b, a], log2)"
      using run by simp
  qed
  have "mset ?s = mset (own_repos @ contributions)" by (rule mset_sort_reverse)
  moreover have "sorted_wrt (\<lambda>a b. latest_activity a \<ge> latest_activity b) ?s"
    by (rule sorted_sort_reverse)
  moreover have "\<forall>k. filter (\<lambda>a. latest_activity a = k) ?s
                  = filter (\<lambda>a. latest_activity a = k) own_repos
                    @ filter (\<lambda>a. latest_activity a = k) contributions"
    by (simp add: stable_sort_reverse)
  ultimately show ?thesis using run first pair by (intro exI [of _ ?s] conjI)
qed

subsection \<open>Instances\<close>



theorem stale_or_idle_repo_no_record_witness:
  "rest_repos
     (example_api [example_repo ''blog'' ''2024-05-01T00:00:00Z'', example_repo ''old'' ''2024-01-01T00:00:00Z'']
        [Commit ''c1''] [] [] []) repos_url
     = Some ([example_repo ''blog'' ''2024-05-01T00:00:00Z''] @ example_repo ''old'' ''2024-01-01T00:00:00Z'' # []) \<and>
   (\<exists>pushed_at. repo_pushed_at (example_repo ''old'' ''2024-01-01T00:00:00Z'') = Some pushed_at \<and>
                 pushed_at < ''2024-04-01T00:00:00Z'') \<and>
   fst (get_own_repos_activity
          (example_api [example_repo ''blog'' ''2024-05-01T00:00:00Z'', example_repo ''old'' ''2024-01-01T00:00:00Z'']
             [Commit ''c1''] [] [] [])
          ''2024-04-01T00:00:00Z'' [])
   = fst (get_own_repos_activity
            ((example_api [example_repo ''blog'' ''2024-05-01T00:00:00Z'', example_repo ''old'' ''2024-01-01T00:00:00Z'']
                [Commit ''c1''] [] [] [])
               \<lparr>rest_repos := (\<lambda>url. Some ([example_repo ''blog'' ''2024-05-01T00:00:00Z''] @ []))\<rparr>)
            ''2024-04-01T00:00:00Z'' [])"
proof -
  let ?env = "example_api [example_repo ''blog'' ''2024-05-01T00:00:00Z'', example_repo ''old'' ''2024-01-01T00:00:00Z'']
        [Commit ''c1''] [] [] []"
  have h1: "rest_repos ?env repos_url
     = Some ([example_repo ''blog'' ''2024-05-01T00:00:00Z''] @ example_repo ''old'' ''2024-01-01T00:00:00Z'' # [])"
    by (simp add: example_api_def)
  have "repo_pushed_at (example_repo ''old'' ''2024-01-01T00:00:00Z'') = Some ''2024-01-01T00:00:00Z''"
    by (simp add: example_repo_def)
  moreover have "''2024-01-01T00:00:00Z'' < ''2024-04-01T00:00:00Z''" by code_simp
  ultimately have h2: "\<exists>pushed_at. repo_pushed_at (example_repo ''old'' ''2024-01-01T00:00:00Z'') = Some pushed_at \<and>
                 pushed_at < ''2024-04-01T00:00:00Z''"
    by blast
  then have h2': "repo_pushed_at (example_repo ''old'' ''2024-01-01T00:00:00Z'') = None \<or>
         (\<exists>pushed_at. repo_pushed_at (example_repo ''old'' ''2024-01-01T00:00:00Z'') = Some pushed_at \<and>
                 pushed_at < ''2024-04-01T00:00:00Z'') \<or>
         rest_commits ?env (commits_url (example_repo ''old'' ''2024-01-01T00:00:00Z'') ''2024-04-01T00:00:00Z'') = None \<or>
         rest_commits ?env (commits_url (example_repo ''old'' ''2024-01-01T00:00:00Z'') ''2024-04-01T00:00:00Z'') = Some []"
    by (intro disjI2 disjI1)
  from conjunct2 [OF stale_or_idle_repo_no_record [OF h1 h2', of "[]"]] h1 h2
  show ?thesis by (intro conjI)
qed

theorem hash_like_owner_no_record_witness:
  "length (gql_owner_login (rc_repository
      (example_contribution ''abcdefabcdefabcdefabcdefabcdefabcdef'' ''2024-05-03T00:00:00Z''))) > 30 \<and>
   list_all (\<lambda>c. c \<in> set ''0123456789abcdefABCDEF'')
     (gql_owner_login (rc_repository
        (example_contribution ''abcdefabcdefabcdefabcdefabcdefabcdef'' ''2024-05-03T00:00:00Z''))) \<and>
   graphql
     (example_api [] [] [] []
        [example_contribution ''octo'' ''2024-05-03T00:00:00Z'',
         example_contribution ''abcdefabcdefabcdefabcdefabcdefabcdef'' ''2024-05-03T00:00:00Z''])
     contributions_query
   = Some (GqlData ([example_contribution ''octo'' ''2024-05-03T00:00:00Z'']
        @ example_contribution ''abcdefabcdefabcdefabcdefabcdefabcdef'' ''2024-05-03T00:00:00Z'' # [])) \<and>
   get_open_source_contributions
     (example_api [] [] [] []
        [example_contribution ''octo'' ''2024-05-03T00:00:00Z'',
         example_contribution ''abcdefabcdefabcdefabcdefabcdefabcdef'' ''2024-05-03T00:00:00Z''])
     ''2024-04-01T00:00:00Z'' []
   = get_open_source_contributions
       ((example_api [] [] [] []
           [example_contribution ''octo'' ''2024-05-03T00:00:00Z'',
            example_contribution ''abcdefabcdefabcdefabcdefabcdefabcdef'' ''2024-05-03T00:00:00Z''])
          \<lparr>graphql := (\<lambda>query. Some (GqlData ([example_contribution ''octo'' ''2024-05-03T00:00:00Z''] @ [])))\<rparr>)
       ''2024-04-01T00:00:00Z'' []"
proof -
  let ?rc = "example_contribution ''abcdefabcdefabcdefabcdefabcdefabcdef'' ''2024-05-03T00:00:00Z''"
  let ?env = "example_api [] [] [] []
        [example_contribution ''octo'' ''2024-05-03T00:00:00Z'', ?rc]"
  have h1: "length (gql_owner_login (rc_repository ?rc)) > 30"
    by (simp add: example_contribution_def)
  have h2: "list_all (\<lambda>c. c \<in> set ''0123456789abcdefABCDEF'') (gql_owner_login (rc_repository ?rc))"
    by code_simp
  then have h2': "\<forall>c \<in> set (gql_owner_login (rc_repository ?rc)). c \<in> set ''0123456789abcdefABCDEF''"
    by (simp only: list_all_iff)
  have h3: "graphql ?env contributions_query
      = Some (GqlData ([example_contribution ''octo'' ''2024-05-03T00:00:00Z''] @ ?rc # []))"
    by (simp add: example_api_def)
  from conjunct2 [OF hash_like_owner_no_record [OF h1 h2' h3, of "''2024-04-01T00:00:00Z''" "[]"]]
    h1 h2 h3
  show ?thesis by (intro conjI)
qed





theorem get_all_activity_sorted_witness:
  "days_ago
     (example_api [example_repo ''blog'' ''2024-05-01T00:00:00Z''] [Commit ''c1''] [] []
        [example_contribution ''octo'' ''2024-05-03T00:00:00Z'']) (2 * 30)
     = Some ''2024-04-01T00:00:00Z'' \<and>
   (0::int) \<le> 10 \<and>
   latest_activity (RepoActivity ''blog'' ''https://github.com/jimyag/blog'' 1 False None None
                      ''2024-05-01T00:00:00Z'')
     < latest_activity (ContributionActivity ''octo/lib'' ''https://github.com/octo/lib'' 1
                          ''2024-05-03T00:00:00Z'') \<and>
   get_all_activity
     (example_api [example_repo ''blog'' ''2024-05-01T00:00:00Z''] [Commit ''c1''] [] []
        [example_contribution ''octo'' ''2024-05-03T00:00:00Z'']) 2 10 []
   = Inr ([ContributionActivity ''octo/lib'' ''https://github.com/octo/lib'' 1 ''2024-05-03T00:00:00Z'',
           RepoActivity ''blog'' ''https://github.com/jimyag/blog'' 1 False None None
             ''2024-05-01T00:00:00Z''],
          [''https://api.github.com/users/jimyag/repos?per_page=100&type=owner&sort=pushed&direction=desc'',
           ''https://api.github.com/repos/jimyag/blog/commits?since=2024-04-01T00:00:00Z&per_page=100'',
           ''https://api.github.com/repos/jimyag/blog/releases?per_page=10'',
           ''https://api.github.com/repos/jimyag/blog/tags?per_page=5'',
           ''https://api.github.com/graphql''])"
proof -
  let ?env = "example_api [example_repo ''blog'' ''2024-05-01T00:00:00Z''] [Commit ''c1''] [] []
        [example_contribution ''octo'' ''2024-05-03T00:00:00Z'']"
  let ?a = "RepoActivity ''blog'' ''https://github.com/jimyag/blog'' 1 False None None
             ''2024-05-01T00:00:00Z''"
  let ?b = "ContributionActivity ''octo/lib'' ''https://github.com/octo/lib'' 1 ''2024-05-03T00:00:00Z''"
  let ?log1 = "[''https://api.github.com/users/jimyag/repos?per_page=100&type=owner&sort=pushed&direction=desc'',
           ''https://api.github.com/repos/jimyag/blog/commits?since=2024-04-01T00:00:00Z&per_page=100'',
           ''https://api.github.com/repos/jimyag/blog/releases?per_page=10'',
           ''https://api.github.com/repos/jimyag/blog/tags?per_page=5'']"
  have h1: "days_ago ?env (2 * 30) = Some ''2024-04-01T00:00:00Z''"
    by (simp add: example_api_def)
  have h2: "get_own_repos_activity ?env ''2024-04-01T00:00:00Z'' [] = ([?a], ?log1)"
    by code_simp
  have h3: "get_open_source_contributions ?env ''2024-04-01T00:00:00Z'' ?log1
      = ([?b], ?log1 @ [''https://api.github.com/graphql''])"
    by code_simp
  have h4: "(0::int) \<le> 10" by simp
  have lt: "latest_activity ?a < latest_activity ?b" by code_simp
  from get_all_activity_sorted [OF h1 h2 h3, of 10] lt
  have "get_all_activity ?env 2 10 [] = Inr ([?b, ?a], ?log1 @ [''https://api.github.com/graphql''])"
    by fastforce
  with h1 h4 lt show ?thesis by simp
qed

end
